theory Spec2Isabelle
  imports
    Main
    "HOL-Library.AList"
    "HOL-Library.Char_ord"
    "HOL-Library.List_Lexorder"
    "HOL-Library.Product_Lexorder"
    "HOL-Library.Multiset"
begin

section \<open>Python values shared by all modules\<close>

text \<open>
  Exceptions are values. The three built-in classes the package raises carry their
  message; \<open>AssertionError\<close> is what a failed \<^verbatim>\<open>assert\<close> raises; \<open>Exception\<close>
  stands for whatever the wrapped user code or a backend may raise.
\<close>

datatype exn =
    ValueError string
  | KeyError string
  | RuntimeError string
  | AssertionError
  | Exception string

datatype 'a outcome = Return 'a | Raise exn

text \<open>\<^verbatim>\<open>f"'{x}'"\<close>: a string between two apostrophes.\<close>

definition quoted :: "string \<Rightarrow> string" where
  "quoted x = [CHR 0x27] @ x @ [CHR 0x27]"

definition newline :: string where
  "newline = [CHR 0x0A]"

text \<open>\<^verbatim>\<open>sep.join(xs)\<close>\<close>

fun join :: "string \<Rightarrow> string list \<Rightarrow> string" where
  "join sep [] = []"
| "join sep [x] = x"
| "join sep (x # y # ys) = x @ sep @ join sep (y # ys)"

section \<open>\<^verbatim>\<open>_types.py\<close>\<close>

record StepInfo =
  name :: string
  flow_name :: string
  after :: "string list"
  is_entrypoint :: bool

text \<open>
  A Python \<^verbatim>\<open>dict[str, StepInfo]\<close> is an association list in insertion order with
  distinct keys: \<open>map_of\<close> is \<^verbatim>\<open>d.get(k)\<close>, \<open>AList.update\<close> is \<^verbatim>\<open>d[k] = v\<close> (a new
  key goes last, an old key keeps its place), \<open>map fst\<close> and \<open>map snd\<close> are the
  iteration over keys and over \<^verbatim>\<open>d.values()\<close>.

  Dictionaries are mutable objects, so they live in a store and are held by reference.
  \<open>FlowInfo.steps\<close> is such a reference.
\<close>

type_synonym step_dict = "(string \<times> StepInfo) list"

type_synonym ref = nat

record FlowInfo =
  name :: string
  steps :: ref
  entrypoints :: "string set"

section \<open>\<^verbatim>\<open>_registry.py\<close>\<close>

text \<open>
  The state the registry code works on: \<open>registry_steps\<close> is \<^verbatim>\<open>FlowRegistry._steps\<close>
  (flow name to the reference of that flow's step dictionary), \<open>dicts\<close> is the store of
  step dictionaries, \<open>next_ref\<close> the first reference never handed out, and \<open>files\<close>
  the text files written by \<^verbatim>\<open>generate_dag(..., output=path)\<close>.
  The lock only serialises callers; one call is one atomic transition of this state.
\<close>

record reg_state =
  registry_steps :: "(string \<times> ref) list"
  dicts :: "ref \<Rightarrow> step_dict"
  next_ref :: ref
  files :: "string \<Rightarrow> string option"

text \<open>\<^verbatim>\<open>FlowRegistry.__init__\<close> on an otherwise empty store.\<close>

definition init_state :: reg_state where
  "init_state = \<lparr>registry_steps = [], dicts = (\<lambda>_. []), next_ref = 0, files = (\<lambda>_. None)\<rparr>"

text \<open>\<^verbatim>\<open>self._steps.setdefault(flow, {})\<close>: the flow's dictionary, created empty when absent.\<close>

definition setdefault_flow :: "string \<Rightarrow> reg_state \<Rightarrow> ref \<times> reg_state" where
  "setdefault_flow flow s =
     (case map_of (registry_steps s) flow of
        Some a \<Rightarrow> (a, s)
      | None \<Rightarrow>
          (next_ref s,
           s\<lparr>registry_steps := registry_steps s @ [(flow, next_ref s)],
             dicts := (dicts s)(next_ref s := []),
             next_ref := Suc (next_ref s)\<rparr>))"

definition conflict_message :: "StepInfo \<Rightarrow> string" where
  "conflict_message info =
     ''Conflicting registration for step '' @ quoted (StepInfo.name info) @
     '' in flow '' @ quoted (flow_name info)"

definition register :: "StepInfo \<Rightarrow> reg_state \<Rightarrow> unit outcome \<times> reg_state" where
  "register info s =
     (let (a, s1) = setdefault_flow (flow_name info) s;
          flow_steps = dicts s1 a
      in case map_of flow_steps (StepInfo.name info) of
           Some existing \<Rightarrow>
             if existing \<noteq> info then (Raise (ValueError (conflict_message info)), s1)
             else (Return (), s1)
         | None \<Rightarrow>
             (Return (),
              s1\<lparr>dicts := (dicts s1)(a := AList.update (StepInfo.name info) info flow_steps)\<rparr>))"

definition not_found_message :: "string \<Rightarrow> string" where
  "not_found_message flow = ''Flow '' @ quoted flow @ '' not found''"

text \<open>
  \<^verbatim>\<open>get_flow\<close> builds \<^verbatim>\<open>dict(steps)\<close>, a new dictionary object with the same items,
  and a frozenset of the names of the entrypoint steps.
\<close>

definition get_flow :: "string \<Rightarrow> reg_state \<Rightarrow> FlowInfo outcome \<times> reg_state" where
  "get_flow flow s =
     (case map_of (registry_steps s) flow of
        None \<Rightarrow> (Raise (KeyError (not_found_message flow)), s)
      | Some a \<Rightarrow>
          (let steps = dicts s a;
               entrypoints = set [StepInfo.name st. st \<leftarrow> map snd steps, is_entrypoint st];
               copy = next_ref s
           in (Return \<lparr>FlowInfo.name = flow, steps = copy, entrypoints = entrypoints\<rparr>,
               s\<lparr>dicts := (dicts s)(copy := steps), next_ref := Suc copy\<rparr>)))"

definition get_all_flow_names :: "reg_state \<Rightarrow> string list" where
  "get_all_flow_names s = map fst (registry_steps s)"

definition missing_line :: "string \<Rightarrow> string \<Rightarrow> string" where
  "missing_line step_name ref =
     ''Step '' @ quoted step_name @ '' references unknown step '' @ quoted ref"

definition missing_refs :: "step_dict \<Rightarrow> string list" where
  "missing_refs flow_steps =
     [missing_line (StepInfo.name step) r.
        step \<leftarrow> map snd flow_steps, r \<leftarrow> after step, r \<notin> set (map fst flow_steps)]"

definition invalid_message :: "string \<Rightarrow> string list \<Rightarrow> string" where
  "invalid_message flow missing =
     ''Flow '' @ quoted flow @ '' has invalid references:'' @ newline @
     join newline (map (\<lambda>m. ''  - '' @ m) missing)"

definition validate_flow :: "string \<Rightarrow> reg_state \<Rightarrow> unit outcome \<times> reg_state" where
  "validate_flow flow s =
     (case get_flow flow s of
        (Raise e, s1) \<Rightarrow> (Raise e, s1)
      | (Return info, s1) \<Rightarrow>
          (let missing = missing_refs (dicts s1 (steps info))
           in if missing \<noteq> [] then (Raise (ValueError (invalid_message flow missing)), s1)
              else (Return (), s1)))"

definition clear :: "reg_state \<Rightarrow> reg_state" where
  "clear s = s\<lparr>registry_steps := []\<rparr>"

text \<open>What a caller can read back: the entry stored under a flow and step name.\<close>

definition lookup_step :: "reg_state \<Rightarrow> string \<Rightarrow> string \<Rightarrow> StepInfo option" where
  "lookup_step s flow step =
     (case map_of (registry_steps s) flow of
        None \<Rightarrow> None
      | Some a \<Rightarrow> map_of (dicts s a) step)"

section \<open>\<^verbatim>\<open>_dag.py\<close>\<close>

definition edge_line :: "string \<times> string \<Rightarrow> string" where
  "edge_line e = ''    '' @ fst e @ '' --> '' @ snd e"

definition node_line :: "string \<Rightarrow> string" where
  "node_line n = ''    '' @ n"

text \<open>
  \<^verbatim>\<open>generate_dag(flow_name, format=..., output=...)\<close>. Python compares strings by code
  point and tuples lexicographically; that is the order of \<open>string \<times> string\<close> here, and
  a list has one sorted arrangement, so \<open>sort\<close> returns what \<^verbatim>\<open>list.sort\<close> and
  \<^verbatim>\<open>sorted\<close> return. \<open>repr\<close> is Python's built-in \<^verbatim>\<open>repr\<close> on strings (the
  \<^verbatim>\<open>!r\<close> of the f-string), a parameter of the model. Writing the file is taken to
  succeed. A string is the list of the bytes of its UTF-8 encoding, whose lexicographic
  order is the order of the code points.
\<close>

definition generate_dag ::
  "(string \<Rightarrow> string) \<Rightarrow> string \<Rightarrow> string \<Rightarrow> string option \<Rightarrow> reg_state
     \<Rightarrow> string option outcome \<times> reg_state" where
  "generate_dag repr flow format output s =
     (if format \<noteq> ''mermaid''
      then (Raise (ValueError (''Unsupported format: '' @ repr format)), s)
      else case get_flow flow s of
          (Raise e, s1) \<Rightarrow> (Raise e, s1)
        | (Return info, s1) \<Rightarrow>
            (let flow_steps = dicts s1 (steps info);
                 edges = sort [(predecessor, StepInfo.name step).
                                 step \<leftarrow> map snd flow_steps, predecessor \<leftarrow> after step];
                 lines = [''graph TD''] @
                   (if edges = [] then map node_line (sort (map fst flow_steps))
                    else map edge_line edges);
                 diagram = join newline lines @ newline
             in case output of
                  None \<Rightarrow> (Return (Some diagram), s1)
                | Some path \<Rightarrow> (Return None, s1\<lparr>files := (files s1)(path \<mapsto> diagram)\<rparr>)))"

section \<open>Runs of the registry\<close>

text \<open>
  A caller's use of the registry and the renderer is a sequence of calls; an exception
  ends one call, not the sequence. \<open>run\<close> gives the state after such a sequence.
\<close>

datatype call =
    Register StepInfo
  | GetFlow string
  | GetAllFlowNames
  | ValidateFlow string
  | Clear
  | GenerateDag string string "string option"

fun exec :: "(string \<Rightarrow> string) \<Rightarrow> call \<Rightarrow> reg_state \<Rightarrow> reg_state" where
  "exec repr (Register info) s = snd (register info s)"
| "exec repr (GetFlow flow) s = snd (get_flow flow s)"
| "exec repr GetAllFlowNames s = s"
| "exec repr (ValidateFlow flow) s = snd (validate_flow flow s)"
| "exec repr Clear s = clear s"
| "exec repr (GenerateDag flow format output) s = snd (generate_dag repr flow format output s)"

definition run :: "(string \<Rightarrow> string) \<Rightarrow> call list \<Rightarrow> reg_state \<Rightarrow> reg_state" where
  "run repr calls s = fold (exec repr) calls s"

text \<open>
  What holds of every state a run reaches: the registry's dictionaries are allocated,
  no two flows share one, and each has distinct keys.
\<close>

definition reg_inv :: "reg_state \<Rightarrow> bool" where
  "reg_inv s \<longleftrightarrow>
     distinct (map snd (registry_steps s)) \<and>
     (\<forall>a \<in> set (map snd (registry_steps s)). a < next_ref s \<and> distinct (map fst (dicts s a)))"

section \<open>Python objects of the context modules\<close>

text \<open>
  A metadata value (\<^verbatim>\<open>Any\<close> in the source) is \<^verbatim>\<open>None\<close>, a bool, an int, a string, or a
  reference to a mutable container: a list, or a dictionary with string keys. The
  containers live in the store \<open>objs\<close>; two values alias when they are the same
  reference.
\<close>

datatype pyval = VNone | VBool bool | VInt int | VStr string | VRef ref

datatype pyobj = OList "pyval list" | ODict "(string \<times> pyval) list"

text \<open>
  A \<^verbatim>\<open>FlowContext\<close> has two slots, assigned once in \<^verbatim>\<open>__init__\<close>: the correlation id and
  \<^verbatim>\<open>_metadata\<close>, a reference to a dictionary.
\<close>

record FlowContext =
  correlation_id :: string
  metadata_dict :: ref

datatype backend = LoggingBackend | OTelBackend | OtherBackend nat

text \<open>A record of the \<^verbatim>\<open>penstock\<close> logger: message, flow, step, correlation id.\<close>

datatype log_record =
    StepStart string string string
  | StepEnd string string string

text \<open>
  The state one strand of execution sees: the store of containers, the value of
  \<^verbatim>\<open>_flow_context_var\<close> on this strand, the values \<^verbatim>\<open>uuid.uuid4().hex\<close> will return and
  how many were taken, the globals \<^verbatim>\<open>_backend\<close> and \<^verbatim>\<open>_configured\<close> of \<^verbatim>\<open>_config.py\<close>,
  whether \<^verbatim>\<open>opentelemetry\<close> can be imported, and the records logged so far.
\<close>

record cstate =
  objs :: "ref \<Rightarrow> pyobj"
  next_obj :: ref
  flow_context_var :: "FlowContext option"
  uuid_stream :: "nat \<Rightarrow> string"
  uuid_used :: nat
  backend_slot :: "backend option"
  configured :: bool
  has_otel :: bool
  log_records :: "log_record list"

fun items_of :: "pyobj \<Rightarrow> (string option \<times> pyval) list" where
  "items_of (OList xs) = map (\<lambda>v. (None, v)) xs"
| "items_of (ODict d) = map (\<lambda>(k, v). (Some k, v)) d"

fun dict_items :: "pyobj \<Rightarrow> (string \<times> pyval) list" where
  "dict_items (ODict d) = d"
| "dict_items (OList xs) = []"

fun empty_like :: "pyobj \<Rightarrow> pyobj" where
  "empty_like (OList xs) = OList []"
| "empty_like (ODict d) = ODict []"

text \<open>\<^verbatim>\<open>y.append(v)\<close> on a list, \<^verbatim>\<open>y[k] = v\<close> on a dictionary.\<close>

fun add_item :: "string option \<Rightarrow> pyval \<Rightarrow> pyobj \<Rightarrow> pyobj" where
  "add_item None v (OList xs) = OList (xs @ [v])"
| "add_item (Some k) v (ODict d) = ODict (AList.update k v d)"
| "add_item k v ob = ob"

text \<open>
  \<^verbatim>\<open>copy.deepcopy(x, memo)\<close> of the standard library, on the values above: an atom is
  its own copy; a container already in \<open>memo\<close> yields the copy recorded there; otherwise
  an empty container of the same kind is created, recorded in \<open>memo\<close>, and filled with
  the copies of the items in order. The recursion depth is bounded by \<open>fuel\<close>; the
  result is \<open>None\<close> when it does not suffice.
\<close>

fun deepcopy ::
    "nat \<Rightarrow> pyval \<Rightarrow> (ref \<rightharpoonup> ref) \<Rightarrow> cstate \<Rightarrow> (pyval \<times> (ref \<rightharpoonup> ref) \<times> cstate) option"
  and deepcopy_items ::
    "nat \<Rightarrow> (string option \<times> pyval) list \<Rightarrow> ref \<Rightarrow> (ref \<rightharpoonup> ref) \<Rightarrow> cstate
       \<Rightarrow> ((ref \<rightharpoonup> ref) \<times> cstate) option"
where
  "deepcopy fuel (VRef a) memo s =
     (case memo a of
        Some y \<Rightarrow> Some (VRef y, memo, s)
      | None \<Rightarrow>
          (case fuel of
             0 \<Rightarrow> None
           | Suc n \<Rightarrow>
               (let y = next_obj s;
                    s1 = s\<lparr>objs := (objs s)(y := empty_like (objs s a)), next_obj := Suc y\<rparr>
                in case deepcopy_items n (items_of (objs s a)) y (memo(a \<mapsto> y)) s1 of
                     None \<Rightarrow> None
                   | Some (memo', s') \<Rightarrow> Some (VRef y, memo', s'))))"
| "deepcopy fuel VNone memo s = Some (VNone, memo, s)"
| "deepcopy fuel (VBool b) memo s = Some (VBool b, memo, s)"
| "deepcopy fuel (VInt i) memo s = Some (VInt i, memo, s)"
| "deepcopy fuel (VStr x) memo s = Some (VStr x, memo, s)"
| "deepcopy_items n [] y memo s = Some (memo, s)"
| "deepcopy_items n ((k, v) # rest) y memo s =
     (case deepcopy n v memo s of
        None \<Rightarrow> None
      | Some (v', memo1, s1) \<Rightarrow>
          deepcopy_items n rest y memo1 (s1\<lparr>objs := (objs s1)(y := add_item k v' (objs s1 y))\<rparr>))"

section \<open>\<^verbatim>\<open>_context.py\<close>\<close>

definition uuid4_hex :: "cstate \<Rightarrow> string \<times> cstate" where
  "uuid4_hex s = (uuid_stream s (uuid_used s), s\<lparr>uuid_used := Suc (uuid_used s)\<rparr>)"

text \<open>\<^verbatim>\<open>{}\<close>: a new empty dictionary.\<close>

definition new_dict :: "cstate \<Rightarrow> ref \<times> cstate" where
  "new_dict s =
     (next_obj s, s\<lparr>objs := (objs s)(next_obj s := ODict []), next_obj := Suc (next_obj s)\<rparr>)"

text \<open>
  \<^verbatim>\<open>FlowContext.__init__\<close>: \<^verbatim>\<open>correlation_id or uuid.uuid4().hex\<close> takes a new id when the
  argument is \<^verbatim>\<open>None\<close> or the empty string; the metadata argument is kept as it is, not
  copied.
\<close>

definition FlowContext_init :: "string option \<Rightarrow> ref option \<Rightarrow> cstate \<Rightarrow> FlowContext \<times> cstate" where
  "FlowContext_init cid md s =
     (let (cid', s1) =
            (case cid of
               Some c \<Rightarrow> if c \<noteq> [] then (c, s) else uuid4_hex s
             | None \<Rightarrow> uuid4_hex s);
          (m, s2) = (case md of Some r \<Rightarrow> (r, s1) | None \<Rightarrow> new_dict s1)
      in (\<lparr>correlation_id = cid', metadata_dict = m\<rparr>, s2))"

definition get_value :: "FlowContext \<Rightarrow> string \<Rightarrow> pyval \<Rightarrow> cstate \<Rightarrow> pyval" where
  "get_value ctx key dflt s =
     (case map_of (dict_items (objs s (metadata_dict ctx))) key of
        Some v \<Rightarrow> v
      | None \<Rightarrow> dflt)"

definition set_value :: "FlowContext \<Rightarrow> string \<Rightarrow> pyval \<Rightarrow> cstate \<Rightarrow> cstate" where
  "set_value ctx key v s =
     s\<lparr>objs := (objs s)(metadata_dict ctx := add_item (Some key) v (objs s (metadata_dict ctx)))\<rparr>"

definition delete_value :: "FlowContext \<Rightarrow> string \<Rightarrow> cstate \<Rightarrow> unit outcome \<times> cstate" where
  "delete_value ctx key s =
     (case map_of (dict_items (objs s (metadata_dict ctx))) key of
        None \<Rightarrow> (Raise (KeyError key), s)
      | Some v \<Rightarrow>
          (Return (),
           s\<lparr>objs := (objs s)(metadata_dict ctx :=
                 ODict (AList.delete key (dict_items (objs s (metadata_dict ctx)))))\<rparr>))"

text \<open>The property \<^verbatim>\<open>metadata\<close>: \<^verbatim>\<open>dict(self._metadata)\<close>, a new dictionary with the same items.\<close>

definition metadata :: "FlowContext \<Rightarrow> cstate \<Rightarrow> ref \<times> cstate" where
  "metadata ctx s =
     (next_obj s,
      s\<lparr>objs := (objs s)(next_obj s := ODict (dict_items (objs s (metadata_dict ctx)))),
        next_obj := Suc (next_obj s)\<rparr>)"

definition fork :: "nat \<Rightarrow> FlowContext \<Rightarrow> cstate \<Rightarrow> (FlowContext \<times> cstate) option" where
  "fork fuel ctx s =
     (case deepcopy fuel (VRef (metadata_dict ctx)) Map.empty s of
        Some (VRef m, memo, s1) \<Rightarrow> Some (FlowContext_init (Some (correlation_id ctx)) (Some m) s1)
      | _ \<Rightarrow> None)"

definition set_context :: "FlowContext \<Rightarrow> cstate \<Rightarrow> cstate" where
  "set_context ctx s = s\<lparr>flow_context_var := Some ctx\<rparr>"

definition reset_context :: "cstate \<Rightarrow> cstate" where
  "reset_context s = s\<lparr>flow_context_var := None\<rparr>"

definition get_or_create_context :: "cstate \<Rightarrow> FlowContext \<times> cstate" where
  "get_or_create_context s =
     (case flow_context_var s of
        Some ctx \<Rightarrow> (ctx, s)
      | None \<Rightarrow> (let (ctx, s1) = FlowContext_init None None s in (ctx, set_context ctx s1)))"

definition current_flow_id :: "cstate \<Rightarrow> string option" where
  "current_flow_id s =
     (case flow_context_var s of Some ctx \<Rightarrow> Some (correlation_id ctx) | None \<Rightarrow> None)"

definition get_flow_context :: "cstate \<Rightarrow> FlowContext option" where
  "get_flow_context s = flow_context_var s"

definition set_flow_context_value :: "string \<Rightarrow> pyval \<Rightarrow> cstate \<Rightarrow> cstate" where
  "set_flow_context_value key v s =
     (let (ctx, s1) = get_or_create_context s in set_value ctx key v s1)"

definition get_flow_context_value :: "string \<Rightarrow> pyval \<Rightarrow> cstate \<Rightarrow> pyval" where
  "get_flow_context_value key dflt s =
     (case flow_context_var s of
        None \<Rightarrow> dflt
      | Some ctx \<Rightarrow> get_value ctx key dflt s)"

section \<open>\<^verbatim>\<open>_config.py\<close> and the backends\<close>

text \<open>
  \<^verbatim>\<open>OTelBackend()\<close> raises \<^verbatim>\<open>RuntimeError\<close> when \<^verbatim>\<open>opentelemetry\<close> is missing and is
  taken to return otherwise.
\<close>

definition otel_missing_message :: string where
  "otel_missing_message =
     ''opentelemetry-api is required for OTelBackend. '' @
     ''Install it with: pip install opentelemetry-api opentelemetry-sdk''"

definition auto_detect :: "cstate \<Rightarrow> backend" where
  "auto_detect s = (if has_otel s then OTelBackend else LoggingBackend)"

datatype backend_arg = Instance backend | Named string

definition configure :: "(string \<Rightarrow> string) \<Rightarrow> backend_arg \<Rightarrow> cstate \<Rightarrow> unit outcome \<times> cstate" where
  "configure repr arg s =
     (case arg of
        Instance b \<Rightarrow> (Return (), s\<lparr>backend_slot := Some b, configured := True\<rparr>)
      | Named n \<Rightarrow>
          if n = ''logging''
          then (Return (), s\<lparr>backend_slot := Some LoggingBackend, configured := True\<rparr>)
          else if n = ''otel''
          then (if has_otel s
                then (Return (), s\<lparr>backend_slot := Some OTelBackend, configured := True\<rparr>)
                else (Raise (RuntimeError otel_missing_message), s))
          else if n = ''auto''
          then (Return (), s\<lparr>backend_slot := Some (auto_detect s), configured := True\<rparr>)
          else (Raise (ValueError (''Unknown backend: '' @ repr n)), s))"

definition get_backend :: "cstate \<Rightarrow> backend outcome \<times> cstate" where
  "get_backend s =
     (if configured s
      then (case backend_slot s of
              None \<Rightarrow> (Raise AssertionError, s)
            | Some b \<Rightarrow> (Return b, s))
      else (Return (auto_detect s),
            s\<lparr>backend_slot := Some (auto_detect s), configured := True\<rparr>))"

definition reset :: "cstate \<Rightarrow> cstate" where
  "reset s = s\<lparr>backend_slot := None, configured := False\<rparr>"

text \<open>The two globals of \<^verbatim>\<open>_config.py\<close> agree: what its three functions keep.\<close>

definition config_ok :: "cstate \<Rightarrow> bool" where
  "config_ok s \<longleftrightarrow> (configured s \<longrightarrow> backend_slot s \<noteq> None)"

text \<open>\<^verbatim>\<open>LoggingBackend.get_correlation_id\<close>\<close>

definition logging_get_correlation_id :: "cstate \<Rightarrow> string \<times> cstate" where
  "logging_get_correlation_id s =
     (case current_flow_id s of
        Some cid \<Rightarrow> (cid, s)
      | None \<Rightarrow> (let (ctx, s1) = get_or_create_context s in (correlation_id ctx, s1)))"

text \<open>
  \<^verbatim>\<open>backend.span(step, flow)\<close> is a context manager. Entering it yields a token that
  leaving it receives again (for \<^verbatim>\<open>LoggingBackend\<close> the correlation id read on entry);
  leaving it is told the exception of the body, if any, and answers whether to suppress
  it. \<^verbatim>\<open>LoggingBackend\<close> is in the package: it logs on entry and in a \<^verbatim>\<open>finally\<close>, and
  never suppresses; the durations it logs are left out. What any other backend does
  on entry and on exit is a parameter of the model.
\<close>

record external_backends =
  ext_enter :: "backend \<Rightarrow> string \<Rightarrow> string \<Rightarrow> cstate \<Rightarrow> string outcome \<times> cstate"
  ext_exit :: "backend \<Rightarrow> string \<Rightarrow> string \<Rightarrow> string \<Rightarrow> exn option \<Rightarrow> cstate \<Rightarrow> bool outcome \<times> cstate"

definition span_enter ::
  "external_backends \<Rightarrow> backend \<Rightarrow> string \<Rightarrow> string \<Rightarrow> cstate \<Rightarrow> string outcome \<times> cstate" where
  "span_enter ext b step_name flow s =
     (case b of
        LoggingBackend \<Rightarrow>
          (let (cid, s1) = logging_get_correlation_id s
           in (Return cid, s1\<lparr>log_records := log_records s1 @ [StepStart flow step_name cid]\<rparr>))
      | _ \<Rightarrow> ext_enter ext b step_name flow s)"

definition span_exit ::
  "external_backends \<Rightarrow> backend \<Rightarrow> string \<Rightarrow> string \<Rightarrow> string \<Rightarrow> exn option \<Rightarrow> cstate
     \<Rightarrow> bool outcome \<times> cstate" where
  "span_exit ext b step_name flow token exc s =
     (case b of
        LoggingBackend \<Rightarrow>
          (Return False, s\<lparr>log_records := log_records s @ [StepEnd flow step_name token]\<rparr>)
      | _ \<Rightarrow> ext_exit ext b step_name flow token exc s)"

text \<open>
  \<^verbatim>\<open>with backend.span(step, flow): return fn(*args, **kwargs)\<close>. When the body raises and the
  exit suppresses the exception, control leaves the \<^verbatim>\<open>with\<close> statement and the enclosing
  function returns \<^verbatim>\<open>None\<close>.
\<close>

definition with_span ::
  "external_backends \<Rightarrow> backend \<Rightarrow> string \<Rightarrow> string \<Rightarrow> (cstate \<Rightarrow> pyval outcome \<times> cstate)
     \<Rightarrow> cstate \<Rightarrow> pyval outcome \<times> cstate" where
  "with_span ext b step_name flow fn s =
     (case span_enter ext b step_name flow s of
        (Raise e, s1) \<Rightarrow> (Raise e, s1)
      | (Return token, s1) \<Rightarrow>
          (case fn s1 of
             (Return v, s2) \<Rightarrow>
               (case span_exit ext b step_name flow token None s2 of
                  (Raise e, s3) \<Rightarrow> (Raise e, s3)
                | (Return suppress, s3) \<Rightarrow> (Return v, s3))
           | (Raise e, s2) \<Rightarrow>
               (case span_exit ext b step_name flow token (Some e) s2 of
                  (Raise e', s3) \<Rightarrow> (Raise e', s3)
                | (Return suppress, s3) \<Rightarrow>
                    if suppress then (Return VNone, s3) else (Raise e, s3))))"

section \<open>\<^verbatim>\<open>_decorators.py\<close>\<close>

text \<open>
  What the wrappers know of the function they wrap: the step name
  (\<^verbatim>\<open>name or fn.__name__\<close>), the entry of \<^verbatim>\<open>_flow_name_cache\<close> for the wrapper, if any, and
  its \<^verbatim>\<open>__qualname__\<close>.
\<close>

record wrapped =
  step_name :: string
  cached_flow_name :: "string option"
  qualname :: string

text \<open>\<^verbatim>\<open>qualname.rsplit(".", 1)\<close>\<close>

definition rsplit_dot :: "string \<Rightarrow> string list" where
  "rsplit_dot q =
     (if CHR ''.'' \<in> set q
      then [rev (tl (dropWhile (\<lambda>c. c \<noteq> CHR ''.'') (rev q))),
            rev (takeWhile (\<lambda>c. c \<noteq> CHR ''.'') (rev q))]
      else [q])"

definition resolve_flow_name :: "wrapped \<Rightarrow> string" where
  "resolve_flow_name w =
     (case cached_flow_name w of
        Some cached \<Rightarrow> cached
      | None \<Rightarrow>
          (let parts = rsplit_dot (qualname w)
           in if length parts = 2 then parts ! 0 else ''<unknown>''))"

text \<open>
  The wrapper that \<^verbatim>\<open>_make_entrypoint\<close> returns, called on a function \<open>fn\<close> with its
  arguments applied: \<open>fn\<close> is any action on the state that returns a value or raises.
  \<^verbatim>\<open>_set_context\<close> and \<^verbatim>\<open>get_backend\<close> come before the \<^verbatim>\<open>try\<close>; the \<^verbatim>\<open>finally\<close> clause runs
  \<^verbatim>\<open>_reset_context\<close> however the \<^verbatim>\<open>with\<close> statement ends. The coroutine wrapper has the same
  statements around \<^verbatim>\<open>await fn(...)\<close>.
\<close>

definition entrypoint_wrapper ::
  "external_backends \<Rightarrow> wrapped \<Rightarrow> (cstate \<Rightarrow> pyval outcome \<times> cstate) \<Rightarrow> cstate
     \<Rightarrow> pyval outcome \<times> cstate" where
  "entrypoint_wrapper ext w fn s =
     (let (ctx, s1) = FlowContext_init None None s;
          s2 = set_context ctx s1
      in case get_backend s2 of
           (Raise e, s3) \<Rightarrow> (Raise e, s3)
         | (Return b, s3) \<Rightarrow>
             (let (r, s4) = with_span ext b (step_name w) (resolve_flow_name w) fn s3
              in (r, reset_context s4)))"

definition outside_flow_message :: "string \<Rightarrow> string" where
  "outside_flow_message step =
     ''@step '' @ quoted step @ '' called outside of a flow context. '' @
     ''Ensure an @entrypoint has been called first.''"

text \<open>The wrapper that \<^verbatim>\<open>_make_step\<close> returns.\<close>

definition step_wrapper ::
  "external_backends \<Rightarrow> wrapped \<Rightarrow> (cstate \<Rightarrow> pyval outcome \<times> cstate) \<Rightarrow> cstate
     \<Rightarrow> pyval outcome \<times> cstate" where
  "step_wrapper ext w fn s =
     (case get_flow_context s of
        None \<Rightarrow> (Raise (RuntimeError (outside_flow_message (step_name w))), s)
      | Some ctx \<Rightarrow>
          (case get_backend s of
             (Raise e, s1) \<Rightarrow> (Raise e, s1)
           | (Return b, s1) \<Rightarrow> with_span ext b (step_name w) (resolve_flow_name w) fn s1))"

section \<open>Reachability in the store\<close>

fun val_refs :: "pyval \<Rightarrow> ref set" where
  "val_refs (VRef a) = {a}"
| "val_refs VNone = {}"
| "val_refs (VBool b) = {}"
| "val_refs (VInt i) = {}"
| "val_refs (VStr x) = {}"

definition obj_refs :: "pyobj \<Rightarrow> ref set" where
  "obj_refs ob = (\<Union>kv \<in> set (items_of ob). val_refs (snd kv))"

text \<open>The containers a program can get to from the container \<open>r\<close>.\<close>

inductive_set reach :: "(ref \<Rightarrow> pyobj) \<Rightarrow> ref \<Rightarrow> ref set"
  for h :: "ref \<Rightarrow> pyobj" and r :: ref
where
  root: "r \<in> reach h r"
| step: "a \<in> reach h r \<Longrightarrow> b \<in> obj_refs (h a) \<Longrightarrow> b \<in> reach h r"

text \<open>
  A store as Python keeps it: a container holds references to allocated containers only,
  and the keys of a dictionary are distinct.
\<close>

definition heap_wf :: "cstate \<Rightarrow> bool" where
  "heap_wf s \<longleftrightarrow>
     (\<forall>a < next_obj s. obj_refs (objs s a) \<subseteq> {..< next_obj s} \<and>
                      distinct (map fst (dict_items (objs s a))))"

text \<open>
  What holds while \<open>deepcopy\<close> runs on a store whose first \<open>n0\<close> containers are the old
  ones: \<open>memo\<close> sends old containers to new ones, and new containers refer to new ones.
\<close>

definition copying :: "nat \<Rightarrow> (ref \<rightharpoonup> ref) \<Rightarrow> cstate \<Rightarrow> bool" where
  "copying n0 memo s \<longleftrightarrow>
     n0 \<le> next_obj s \<and>
     (\<forall>a < n0. obj_refs (objs s a) \<subseteq> {..< n0}) \<and>
     (\<forall>a y. memo a = Some y \<longrightarrow> a < n0 \<and> n0 \<le> y \<and> y < next_obj s) \<and>
     (\<forall>b. n0 \<le> b \<and> b < next_obj s \<longrightarrow> obj_refs (objs s b) \<subseteq> {n0 ..< next_obj s})"

text \<open>A container read through a renaming of references.\<close>

fun rename :: "(ref \<Rightarrow> ref) \<Rightarrow> pyval \<Rightarrow> pyval" where
  "rename f (VRef a) = VRef (f a)"
| "rename f VNone = VNone"
| "rename f (VBool b) = VBool b"
| "rename f (VInt i) = VInt i"
| "rename f (VStr x) = VStr x"

fun map_obj :: "(pyval \<Rightarrow> pyval) \<Rightarrow> pyobj \<Rightarrow> pyobj" where
  "map_obj g (OList xs) = OList (map g xs)"
| "map_obj g (ODict d) = ODict (map (\<lambda>(k, v). (k, g v)) d)"

text \<open>The fields of the state that copying does not touch.\<close>

definition same_fields :: "cstate \<Rightarrow> cstate \<Rightarrow> bool" where
  "same_fields s s' \<longleftrightarrow>
     flow_context_var s' = flow_context_var s \<and> uuid_stream s' = uuid_stream s \<and>
     uuid_used s' = uuid_used s \<and> backend_slot s' = backend_slot s \<and>
     configured s' = configured s \<and> has_otel s' = has_otel s \<and>
     log_records s' = log_records s"

text \<open>
  \<open>memo\<close> read as a renaming; an old container is copied when its copy holds its items
  renamed; \<open>memo\<close> never sends two containers to one.
\<close>

definition memo_fun :: "(ref \<rightharpoonup> ref) \<Rightarrow> ref \<Rightarrow> ref" where
  "memo_fun memo b = (case memo b of Some z \<Rightarrow> z | None \<Rightarrow> b)"

definition copied :: "(ref \<Rightarrow> pyobj) \<Rightarrow> (ref \<rightharpoonup> ref) \<Rightarrow> cstate \<Rightarrow> ref \<Rightarrow> bool" where
  "copied h0 memo s a \<longleftrightarrow>
     memo a \<noteq> None \<and> obj_refs (h0 a) \<subseteq> dom memo \<and>
     objs s (memo_fun memo a) = map_obj (rename (memo_fun memo)) (h0 a)"

definition memo_inj :: "(ref \<rightharpoonup> ref) \<Rightarrow> bool" where
  "memo_inj memo \<longleftrightarrow> (\<forall>a b z. memo a = Some z \<and> memo b = Some z \<longrightarrow> a = b)"

text \<open>
  A dictionary reference is detached when it has been handed out and the registry does not
  hold it.
\<close>

definition detached :: "ref \<Rightarrow> reg_state \<Rightarrow> bool" where
  "detached a s \<longleftrightarrow> a < next_ref s \<and> a \<notin> set (map snd (registry_steps s))"

section \<open>Example data\<close>

definition step_a :: StepInfo where
  "step_a = \<lparr>StepInfo.name = ''a'', flow_name = ''f'', after = [''b''], is_entrypoint = True\<rparr>"

definition step_b :: StepInfo where
  "step_b = \<lparr>StepInfo.name = ''b'', flow_name = ''f'', after = [''a''], is_entrypoint = False\<rparr>"

definition cyclic_state :: reg_state where
  "cyclic_state = snd (register step_b (snd (register step_a init_state)))"

definition order_a :: StepInfo where
  "order_a = \<lparr>StepInfo.name = ''a'', flow_name = ''order'', after = [], is_entrypoint = True\<rparr>"

definition order_b :: StepInfo where
  "order_b = \<lparr>StepInfo.name = ''b'', flow_name = ''order'', after = [''a''], is_entrypoint = False\<rparr>"

definition order_a_changed :: StepInfo where
  "order_a_changed = order_a\<lparr>is_entrypoint := False\<rparr>"

definition solo_y :: StepInfo where
  "solo_y = \<lparr>StepInfo.name = ''y'', flow_name = ''solo'', after = [], is_entrypoint = False\<rparr>"

definition solo_z :: StepInfo where
  "solo_z = \<lparr>StepInfo.name = ''z'', flow_name = ''solo'', after = [], is_entrypoint = True\<rparr>"

definition broken_x :: StepInfo where
  "broken_x = \<lparr>StepInfo.name = ''x'', flow_name = ''g'', after = [''m1'', ''y'', ''m2''], is_entrypoint = True\<rparr>"

definition broken_y :: StepInfo where
  "broken_y = \<lparr>StepInfo.name = ''y'', flow_name = ''g'', after = [''m3''], is_entrypoint = False\<rparr>"

definition order_state :: reg_state where
  "order_state =
     run quoted [Register order_a, Register order_b, Register solo_z, Register solo_y,
                 Register broken_x, Register broken_y] init_state"

definition order_state_rev :: reg_state where
  "order_state_rev =
     run quoted [Register broken_y, Register solo_y, Register order_b, Register broken_x,
                 Register order_a, Register solo_z] init_state"

definition demo_state :: cstate where
  "demo_state =
     \<lparr>objs = (\<lambda>_. ODict []), next_obj = 0, flow_context_var = None,
      uuid_stream = (\<lambda>n. replicate (Suc n) CHR ''a''), uuid_used = 0,
      backend_slot = None, configured = False, has_otel = False, log_records = []\<rparr>"

definition demo_ext :: external_backends where
  "demo_ext =
     \<lparr>ext_enter = (\<lambda>b step_name flow s. (Return [], s)),
      ext_exit = (\<lambda>b step_name flow token exc s. (Return False, s))\<rparr>"

definition demo_wrapped :: wrapped where
  "demo_wrapped = \<lparr>step_name = ''start'', cached_flow_name = None, qualname = ''Order.start''\<rparr>"

definition fn_probe :: "cstate \<Rightarrow> pyval outcome \<times> cstate" where
  "fn_probe s = (Return (case current_flow_id s of Some c \<Rightarrow> VStr c | None \<Rightarrow> VNone), s)"

definition fn_fail :: "cstate \<Rightarrow> pyval outcome \<times> cstate" where
  "fn_fail s = (Raise (Exception ''boom''), s)"

definition outer_state :: cstate where
  "outer_state =
     demo_state\<lparr>flow_context_var := Some \<lparr>correlation_id = ''outer'', metadata_dict = 0\<rparr>,
       next_obj := 1, backend_slot := Some LoggingBackend, configured := True\<rparr>"

definition fork_state :: cstate where
  "fork_state =
     demo_state\<lparr>objs := (\<lambda>_. ODict [])
         (0 := ODict [(''user'', VStr ''ann''), (''tags'', VRef 1)],
          1 := OList [VInt 1, VRef 0]),
       next_obj := 2\<rparr>"

definition fork_parent :: FlowContext where
  "fork_parent = \<lparr>correlation_id = ''cid'', metadata_dict = 0\<rparr>"

section \<open>Facts about strings and dictionaries\<close>

lemma join_prefix_sep:
  "xs \<noteq> [] \<Longrightarrow> sep @ join sep xs = concat (map (\<lambda>x. sep @ x) xs)"
  by (induction sep xs rule: join.induct) simp_all

lemma join_suffix_sep:
  "xs \<noteq> [] \<Longrightarrow> join sep xs @ sep = concat (map (\<lambda>x. x @ sep) xs)"
  by (induction sep xs rule: join.induct) simp_all

lemma edge_line_eq: "edge_line = (\<lambda>(p, n). ''    '' @ p @ '' --> '' @ n)"
  by (simp add: fun_eq_iff edge_line_def)

lemma node_line_eq: "node_line = (\<lambda>n. ''    '' @ n)"
  by (simp add: fun_eq_iff node_line_def)

lemma sort_cong_mset: "mset xs = mset ys \<Longrightarrow> sort xs = sort ys"
  by (rule properties_for_sort) simp_all

lemma sorted_perm_is_sort: "sorted es \<Longrightarrow> mset es = mset xs \<Longrightarrow> sort xs = es"
  by (rule properties_for_sort) simp_all

lemma mset_concat_map_cong:
  "mset xs = mset ys \<Longrightarrow> mset (concat (map f xs)) = mset (concat (map f ys))"
proof -
  assume eq: "mset xs = mset ys"
  have "mset (concat (map f zs)) = sum_mset (image_mset (\<lambda>z. mset (f z)) (mset zs))" for zs
    by (induction zs) simp_all
  with eq show ?thesis by simp
qed

lemma dict_mset_eq:
  assumes "distinct (map fst d)" and "distinct (map fst d')" and "map_of d' = map_of d"
  shows "mset d' = mset d"
proof -
  have "set d' = set d"
    using assms by (simp add: map_of_inject_set)
  moreover have "distinct d" and "distinct d'"
    using assms(1,2) by (simp_all add: distinct_map)
  ultimately show ?thesis
    by (simp add: set_eq_iff_mset_eq_distinct)
qed

section \<open>The invariant of the registry\<close>

lemma reg_inv_init: "reg_inv init_state"
  by (simp add: reg_inv_def init_state_def)

lemma reg_inv_setdefault_flow:
  "reg_inv s \<Longrightarrow> reg_inv (snd (setdefault_flow flow s))"
  by (auto simp: reg_inv_def setdefault_flow_def split: option.splits)

lemma reg_inv_register: "reg_inv s \<Longrightarrow> reg_inv (snd (register info s))"
proof -
  assume inv: "reg_inv s"
  obtain a s1 where sd: "setdefault_flow (flow_name info) s = (a, s1)"
    by (cases "setdefault_flow (flow_name info) s")
  have inv1: "reg_inv s1"
    using reg_inv_setdefault_flow [OF inv, of "flow_name info"] sd by simp
  show ?thesis
    using inv1
    by (auto simp: register_def sd Let_def reg_inv_def distinct_update split: option.splits)
qed

lemma reg_inv_get_flow: "reg_inv s \<Longrightarrow> reg_inv (snd (get_flow flow s))"
  by (auto simp: reg_inv_def get_flow_def Let_def split: option.splits)

lemma validate_flow_state: "snd (validate_flow flow s) = snd (get_flow flow s)"
  by (cases "get_flow flow s"; cases "fst (get_flow flow s)")
     (auto simp: validate_flow_def Let_def)

lemma generate_dag_state:
  "registry_steps (snd (generate_dag repr flow format out s)) = registry_steps s \<and>
   (\<forall>a < next_ref s. dicts (snd (generate_dag repr flow format out s)) a = dicts s a) \<and>
   next_ref s \<le> next_ref (snd (generate_dag repr flow format out s))"
  by (auto simp: generate_dag_def get_flow_def Let_def split: option.splits)

lemma reg_inv_generate_dag:
  "reg_inv s \<Longrightarrow> reg_inv (snd (generate_dag repr flow format out s))"
  using generate_dag_state [of repr flow format out s]
  by (auto simp: reg_inv_def)

lemma reg_inv_exec: "reg_inv s \<Longrightarrow> reg_inv (exec repr c s)"
  by (cases c)
     (simp_all add: reg_inv_register reg_inv_get_flow validate_flow_state reg_inv_generate_dag,
      simp add: reg_inv_def clear_def)

lemma reg_inv_run: "reg_inv s \<Longrightarrow> reg_inv (run repr calls s)"
  unfolding run_def by (induction calls arbitrary: s) (simp_all add: reg_inv_exec)

lemma map_of_ref_in: "map_of xs k = Some a \<Longrightarrow> a \<in> set (map snd xs)"
  by (auto dest!: map_of_SomeD intro: rev_image_eqI)

lemma map_of_distinct_refs:
  "distinct (map snd xs) \<Longrightarrow> map_of xs k = Some a \<Longrightarrow> map_of xs k' = Some a \<Longrightarrow> k = k'"
  by (induction xs) (auto dest: map_of_ref_in split: if_splits)

lemma register_frame:
  assumes inv: "reg_inv s" and other: "(f, k) \<noteq> (flow_name info, StepInfo.name info)"
  shows "lookup_step (snd (register info s)) f k = lookup_step s f k"
proof (cases "map_of (registry_steps s) (flow_name info)")
  case None
  have fresh: "map_of (registry_steps s) f = Some a \<Longrightarrow> a \<noteq> next_ref s" for a
    using inv by (fastforce simp: reg_inv_def dest!: map_of_ref_in)
  show ?thesis
    using None other fresh
    by (auto simp: lookup_step_def register_def setdefault_flow_def Let_def map_add_def
        split: option.splits)
next
  case (Some a)
  have same_ref: "map_of (registry_steps s) f = Some a \<Longrightarrow> f = flow_name info"
    using inv Some by (auto simp: reg_inv_def dest: map_of_distinct_refs)
  show ?thesis
    using Some other same_ref
    by (auto simp: lookup_step_def register_def setdefault_flow_def Let_def update_conv'
        split: option.splits)
qed

section \<open>Detached dictionaries stay as they are\<close>

lemma detached_register:
  "detached a s \<Longrightarrow>
     detached a (snd (register info s)) \<and> dicts (snd (register info s)) a = dicts s a"
proof -
  assume d: "detached a s"
  have "map_of (registry_steps s) (flow_name info) \<noteq> Some a"
    using d by (auto simp: detached_def dest!: map_of_SomeD intro: rev_image_eqI)
  with d show ?thesis
    by (auto simp: detached_def register_def setdefault_flow_def Let_def
        split: option.splits)
qed

lemma detached_get_flow:
  "detached a s \<Longrightarrow>
     detached a (snd (get_flow flow s)) \<and> dicts (snd (get_flow flow s)) a = dicts s a"
  by (auto simp: detached_def get_flow_def Let_def split: option.splits)

lemma detached_generate_dag:
  "detached a s \<Longrightarrow>
     detached a (snd (generate_dag repr flow format out s)) \<and>
     dicts (snd (generate_dag repr flow format out s)) a = dicts s a"
  using generate_dag_state [of repr flow format out s]
  by (auto simp: detached_def)

lemma detached_exec:
  "detached a s \<Longrightarrow> detached a (exec repr c s) \<and> dicts (exec repr c s) a = dicts s a"
  by (cases c)
     (simp_all add: detached_register detached_get_flow validate_flow_state
        detached_generate_dag, simp add: detached_def clear_def)

lemma detached_run:
  "detached a s \<Longrightarrow> detached a (run repr calls s) \<and> dicts (run repr calls s) a = dicts s a"
  unfolding run_def
proof (induction calls arbitrary: s)
  case Nil
  then show ?case by simp
next
  case (Cons c calls)
  from detached_exec [OF Cons.prems, of repr c]
  have d: "detached a (exec repr c s)" and e: "dicts (exec repr c s) a = dicts s a"
    by simp_all
  from Cons.IH [OF d] e show ?case by simp
qed

lemma get_flow_detached:
  "reg_inv s \<Longrightarrow> get_flow flow s = (Return info, s1) \<Longrightarrow> detached (steps info) s1"
  by (fastforce simp: get_flow_def Let_def detached_def reg_inv_def split: option.splits)

section \<open>Validation and rendering, unfolded\<close>

lemma missing_refs_eq:
  "missing_refs d =
     map (\<lambda>(x, y). missing_line x y)
       [(StepInfo.name st, r). st \<leftarrow> map snd d, r \<leftarrow> after st, r \<notin> set (map fst d)]"
  by (simp add: missing_refs_def map_concat comp_def if_distrib [of "map _"] cong: if_cong)

lemma missing_refs_Nil_iff:
  "missing_refs d = [] \<longleftrightarrow>
     (\<forall>st \<in> set (map snd d). \<forall>r \<in> set (after st). r \<in> set (map fst d))"
  by (auto simp: missing_refs_def)

lemma generate_dag_registered:
  assumes "map_of (registry_steps s) flow = Some a"
  shows "fst (generate_dag repr flow ''mermaid'' None s) =
     Return (Some (concat (map (\<lambda>l. l @ newline) (''graph TD'' #
       (let edges = sort [(p, StepInfo.name st). st \<leftarrow> map snd (dicts s a), p \<leftarrow> after st]
        in if edges = [] then map node_line (sort (map fst (dicts s a)))
           else map edge_line edges)))))"
  using assms
  by (simp add: generate_dag_def get_flow_def Let_def join_suffix_sep del: set_map)

lemma generate_dag_twice:
  assumes inv: "reg_inv s"
  shows "fst (generate_dag repr flow ''mermaid'' None (snd (generate_dag repr flow ''mermaid'' None s))) =
         fst (generate_dag repr flow ''mermaid'' None s)"
proof (cases "map_of (registry_steps s) flow")
  case None
  then show ?thesis
    by (simp add: generate_dag_def get_flow_def)
next
  case (Some a)
  let ?s1 = "snd (generate_dag repr flow ''mermaid'' None s)"
  have a: "a < next_ref s"
    using inv Some by (fastforce simp: reg_inv_def dest!: map_of_ref_in)
  have r: "map_of (registry_steps ?s1) flow = Some a" and d: "dicts ?s1 a = dicts s a"
    using generate_dag_state [of repr flow "''mermaid''" None s] Some a by simp_all
  show ?thesis
    unfolding generate_dag_registered [OF Some] generate_dag_registered [OF r] d ..
qed

section \<open>The example states\<close>

lemmas example_defs =
  step_a_def step_b_def order_a_def order_b_def order_a_changed_def solo_y_def solo_z_def
  broken_x_def broken_y_def

lemma cyclic_state_steps:
  "registry_steps cyclic_state = [(''f'', 0)] \<and>
   dicts cyclic_state 0 = [(''a'', step_a), (''b'', step_b)]"
  by (simp add: cyclic_state_def register_def setdefault_flow_def init_state_def
      step_a_def step_b_def)

lemma order_state_eval:
  "registry_steps order_state = [(''order'', 0), (''solo'', 1), (''g'', 2)] \<and>
   dicts order_state 0 = [(''a'', order_a), (''b'', order_b)] \<and>
   dicts order_state (Suc 0) = [(''z'', solo_z), (''y'', solo_y)] \<and>
   dicts order_state 2 = [(''x'', broken_x), (''y'', broken_y)]"
  by (simp add: order_state_def run_def register_def setdefault_flow_def init_state_def
      example_defs)

lemma order_state_rev_eval:
  "registry_steps order_state_rev = [(''g'', 0), (''solo'', 1), (''order'', 2)] \<and>
   dicts order_state_rev 0 = [(''y'', broken_y), (''x'', broken_x)] \<and>
   dicts order_state_rev (Suc 0) = [(''y'', solo_y), (''z'', solo_z)] \<and>
   dicts order_state_rev 2 = [(''b'', order_b), (''a'', order_a)]"
  by (simp add: order_state_rev_def run_def register_def setdefault_flow_def init_state_def
      example_defs)

lemma order_state_inv: "reg_inv order_state" "reg_inv order_state_rev"
  by (simp_all add: order_state_def order_state_rev_def reg_inv_run reg_inv_init)

section \<open>Copying leaves the old containers alone\<close>

lemma obj_refs_empty_like [simp]: "obj_refs (empty_like ob) = {}"
  by (cases ob) (simp_all add: obj_refs_def)

lemma set_update_subset: "set (AList.update k v d) \<subseteq> insert (k, v) (set d)"
  by (induction d) auto

lemma obj_refs_ODict: "obj_refs (ODict d) = (\<Union>kv \<in> set d. val_refs (snd kv))"
  by (auto simp: obj_refs_def)

lemma obj_refs_OList: "obj_refs (OList xs) = (\<Union>v \<in> set xs. val_refs v)"
  by (auto simp: obj_refs_def)

lemma obj_refs_add_item: "obj_refs (add_item k v ob) \<subseteq> obj_refs ob \<union> val_refs v"
proof (cases ob)
  case (OList xs)
  then show ?thesis by (cases k) (auto simp: obj_refs_OList)
next
  case (ODict d)
  show ?thesis
  proof (cases k)
    case None
    with ODict show ?thesis by simp
  next
    case (Some key)
    have "obj_refs (ODict (AList.update key v d)) \<subseteq> obj_refs (ODict d) \<union> val_refs v"
      using set_update_subset [of key v d] unfolding obj_refs_ODict by fastforce
    with ODict Some show ?thesis by simp
  qed
qed

lemma copyingD:
  assumes "copying n0 memo s"
  shows "n0 \<le> next_obj s"
    and "a < n0 \<Longrightarrow> obj_refs (objs s a) \<subseteq> {..< n0}"
    and "memo a = Some y \<Longrightarrow> a < n0 \<and> n0 \<le> y \<and> y < next_obj s"
    and "n0 \<le> b \<Longrightarrow> b < next_obj s \<Longrightarrow> obj_refs (objs s b) \<subseteq> {n0 ..< next_obj s}"
  using assms unfolding copying_def by blast+

lemma reach_closed:
  assumes "r \<in> R" and "\<forall>b \<in> R. obj_refs (h b) \<subseteq> R"
  shows "reach h r \<subseteq> R"
proof
  fix a assume "a \<in> reach h r"
  then show "a \<in> R"
    using assms by (induction rule: reach.induct) auto
qed

lemma reach_cong:
  assumes "\<forall>b \<in> reach h r. h' b = h b"
  shows "reach h' r = reach h r"
proof
  show "reach h' r \<subseteq> reach h r"
  proof
    fix a assume "a \<in> reach h' r"
    then show "a \<in> reach h r"
    proof (induction rule: reach.induct)
      case root
      show ?case by (rule reach.root)
    next
      case (step a b)
      with assms have "b \<in> obj_refs (h a)" by simp
      with step.IH show ?case by (rule reach.step)
    qed
  qed
  show "reach h r \<subseteq> reach h' r"
  proof
    fix a assume "a \<in> reach h r"
    then show "a \<in> reach h' r"
    proof (induction rule: reach.induct)
      case root
      show ?case by (rule reach.root)
    next
      case (step a b)
      with assms have "b \<in> obj_refs (h' a)" by simp
      with step.IH show ?case by (rule reach.step)
    qed
  qed
qed

lemma deepcopy_inv:
  "deepcopy fuel v memo s = Some (v', memo', s') \<Longrightarrow> copying n0 memo s \<Longrightarrow>
     val_refs v \<subseteq> {..< n0} \<Longrightarrow>
     copying n0 memo' s' \<and> memo \<subseteq>\<^sub>m memo' \<and> next_obj s \<le> next_obj s' \<and>
     (\<forall>b < next_obj s. objs s' b = objs s b) \<and> val_refs v' \<subseteq> {n0 ..< next_obj s'} \<and>
     same_fields s s'"
  and deepcopy_items_inv:
  "deepcopy_items n items y memo s = Some (memo', s') \<Longrightarrow> copying n0 memo s \<Longrightarrow>
     (\<forall>kv \<in> set items. val_refs (snd kv) \<subseteq> {..< n0}) \<Longrightarrow> n0 \<le> y \<Longrightarrow> y < next_obj s \<Longrightarrow>
     copying n0 memo' s' \<and> memo \<subseteq>\<^sub>m memo' \<and> next_obj s \<le> next_obj s' \<and>
     (\<forall>b < next_obj s. b \<noteq> y \<longrightarrow> objs s' b = objs s b) \<and> same_fields s s'"
proof (induction fuel v memo s and n items y memo s
    arbitrary: v' memo' s' and memo' s' rule: deepcopy_deepcopy_items.induct)
  case (1 fuel a memo s)
  show ?case
  proof (cases "memo a")
    case (Some y)
    with "1.prems" show ?thesis
      by (auto simp: copying_def same_fields_def)
  next
    case None
    with "1.prems"(1) obtain n where fuel: "fuel = Suc n"
      by (cases fuel) auto
    let ?y = "next_obj s"
    let ?s1 = "s\<lparr>objs := (objs s)(?y := empty_like (objs s a)), next_obj := Suc ?y\<rparr>"
    from "1.prems"(1) None fuel
    have run: "deepcopy_items n (items_of (objs s a)) ?y (memo(a \<mapsto> ?y)) ?s1 = Some (memo', s')"
      and v': "v' = VRef ?y"
      by (auto simp: Let_def split: option.splits)
    from "1.prems"(3) have a: "a < n0" by simp
    note cD = copyingD [OF "1.prems"(2)]
    have c1: "copying n0 (memo(a \<mapsto> ?y)) ?s1"
      unfolding copying_def
    proof (intro conjI)
      show "n0 \<le> next_obj ?s1"
        using cD(1) by simp
      show "\<forall>b < n0. obj_refs (objs ?s1 b) \<subseteq> {..< n0}"
        using cD(1) cD(2) by simp
      show "\<forall>b z. (memo(a \<mapsto> ?y)) b = Some z \<longrightarrow> b < n0 \<and> n0 \<le> z \<and> z < next_obj ?s1"
        using cD(1) a by (auto split: if_splits dest: cD(3))
      show "\<forall>b. n0 \<le> b \<and> b < next_obj ?s1 \<longrightarrow> obj_refs (objs ?s1 b) \<subseteq> {n0 ..< next_obj ?s1}"
      proof (intro allI impI)
        fix b assume "n0 \<le> b \<and> b < next_obj ?s1"
        then show "obj_refs (objs ?s1 b) \<subseteq> {n0 ..< next_obj ?s1}"
          using cD(4) [of b] by (cases "b = ?y") auto
      qed
    qed
    have items: "\<forall>kv \<in> set (items_of (objs s a)). val_refs (snd kv) \<subseteq> {..< n0}"
      using cD(2) [OF a] by (auto simp: obj_refs_def)
    have y: "n0 \<le> ?y" "?y < next_obj ?s1"
      using cD(1) by simp_all
    from "1.IH" [OF None fuel refl refl run c1 items y]
    have ih: "copying n0 memo' s'" "memo(a \<mapsto> ?y) \<subseteq>\<^sub>m memo'" "next_obj ?s1 \<le> next_obj s'"
      "\<forall>b < next_obj ?s1. b \<noteq> ?y \<longrightarrow> objs s' b = objs ?s1 b" "same_fields ?s1 s'"
      by (simp_all add: fun_upd_def)
    have "memo \<subseteq>\<^sub>m memo'"
      using ih(2) None by (auto simp: map_le_def dom_def split: if_splits)
    moreover have "\<forall>b < next_obj s. objs s' b = objs s b"
      using ih(4) by auto
    moreover have "val_refs v' \<subseteq> {n0 ..< next_obj s'}"
      using v' y(1) ih(3) by auto
    moreover have "same_fields s s'"
      using ih(5) by (simp add: same_fields_def)
    ultimately show ?thesis
      using ih(1,3) by simp
  qed
next
  case (6 n y memo s)
  then show ?case by (simp add: same_fields_def)
next
  case (7 n k v rest y memo s)
  from "7.prems"(1) obtain w memo1 s1 where
    first: "deepcopy n v memo s = Some (w, memo1, s1)"
    by (auto split: option.splits)
  let ?s1' = "s1\<lparr>objs := (objs s1)(y := add_item k w (objs s1 y))\<rparr>"
  from "7.prems"(1) first
  have rest: "deepcopy_items n rest y memo1 ?s1' = Some (memo', s')"
    by simp
  have vr: "val_refs v \<subseteq> {..< n0}"
    using "7.prems"(3) by simp
  from "7.IH"(1) [OF first "7.prems"(2) vr]
  have ih1: "copying n0 memo1 s1" "memo \<subseteq>\<^sub>m memo1" "next_obj s \<le> next_obj s1"
    "\<forall>b < next_obj s. objs s1 b = objs s b" "val_refs w \<subseteq> {n0 ..< next_obj s1}"
    "same_fields s s1"
    by simp_all
  have y1: "y < next_obj s1"
    using "7.prems"(5) ih1(3) by simp
  note cD = copyingD [OF ih1(1)]
  have new: "obj_refs (add_item k w (objs s1 y)) \<subseteq> {n0 ..< next_obj s1}"
    using obj_refs_add_item [of k w "objs s1 y"] ih1(5) cD(4) [OF "7.prems"(4) y1]
    by blast
  have c1: "copying n0 memo1 ?s1'"
    unfolding copying_def
  proof (intro conjI)
    show "n0 \<le> next_obj ?s1'"
      using cD(1) by simp
    show "\<forall>b < n0. obj_refs (objs ?s1' b) \<subseteq> {..< n0}"
      using "7.prems"(4) cD(2) by simp
    show "\<forall>b z. memo1 b = Some z \<longrightarrow> b < n0 \<and> n0 \<le> z \<and> z < next_obj ?s1'"
      using cD(3) by simp
    show "\<forall>b. n0 \<le> b \<and> b < next_obj ?s1' \<longrightarrow> obj_refs (objs ?s1' b) \<subseteq> {n0 ..< next_obj ?s1'}"
    proof (intro allI impI)
      fix b assume "n0 \<le> b \<and> b < next_obj ?s1'"
      then show "obj_refs (objs ?s1' b) \<subseteq> {n0 ..< next_obj ?s1'}"
        using cD(4) [of b] new by (cases "b = y") auto
    qed
  qed
  have items: "\<forall>kv \<in> set rest. val_refs (snd kv) \<subseteq> {..< n0}"
    using "7.prems"(3) by simp
  have y1': "y < next_obj ?s1'"
    using y1 by simp
  from "7.IH"(2) [OF first refl refl rest c1 items "7.prems"(4) y1']
  have ih2: "copying n0 memo' s'" "memo1 \<subseteq>\<^sub>m memo'" "next_obj ?s1' \<le> next_obj s'"
    "\<forall>b < next_obj ?s1'. b \<noteq> y \<longrightarrow> objs s' b = objs ?s1' b" "same_fields ?s1' s'"
    by simp_all
  have "memo \<subseteq>\<^sub>m memo'"
    using ih1(2) ih2(2) by (rule map_le_trans)
  moreover have "\<forall>b < next_obj s. b \<noteq> y \<longrightarrow> objs s' b = objs s b"
    using ih1(3,4) ih2(4) by auto
  moreover have "same_fields s s'"
    using ih1(6) ih2(5) by (simp add: same_fields_def)
  ultimately show ?case
    using ih2(1,3) ih1(3) by simp
qed (simp_all add: same_fields_def)

lemma copying_add_item:
  assumes c: "copying n0 memo s" and y: "n0 \<le> y" "y < next_obj s"
    and w: "val_refs w \<subseteq> {n0 ..< next_obj s}"
  shows "copying n0 memo (s\<lparr>objs := (objs s)(y := add_item k w (objs s y))\<rparr>)"
    (is "copying n0 memo ?s1")
proof -
  note cD = copyingD [OF c]
  have new: "obj_refs (add_item k w (objs s y)) \<subseteq> {n0 ..< next_obj s}"
    using obj_refs_add_item [of k w "objs s y"] w cD(4) [OF y]
    by blast
  show ?thesis
    unfolding copying_def
  proof (intro conjI)
    show "n0 \<le> next_obj ?s1"
      using cD(1) by simp
    show "\<forall>b < n0. obj_refs (objs ?s1 b) \<subseteq> {..< n0}"
      using y(1) cD(2) by simp
    show "\<forall>b z. memo b = Some z \<longrightarrow> b < n0 \<and> n0 \<le> z \<and> z < next_obj ?s1"
      using cD(3) by simp
    show "\<forall>b. n0 \<le> b \<and> b < next_obj ?s1 \<longrightarrow> obj_refs (objs ?s1 b) \<subseteq> {n0 ..< next_obj ?s1}"
    proof (intro allI impI)
      fix b assume "n0 \<le> b \<and> b < next_obj ?s1"
      then show "obj_refs (objs ?s1 b) \<subseteq> {n0 ..< next_obj ?s1}"
        using cD(4) [of b] new by (cases "b = y") auto
    qed
  qed
qed

lemma copying_alloc:
  assumes c: "copying n0 memo s" and a: "a < n0"
  shows "copying n0 (memo(a \<mapsto> next_obj s))
           (s\<lparr>objs := (objs s)(next_obj s := empty_like ob), next_obj := Suc (next_obj s)\<rparr>)"
    (is "copying n0 ?memo ?s1")
proof -
  note cD = copyingD [OF c]
  show ?thesis
    unfolding copying_def
  proof (intro conjI)
    show "n0 \<le> next_obj ?s1"
      using cD(1) by simp
    show "\<forall>b < n0. obj_refs (objs ?s1 b) \<subseteq> {..< n0}"
      using cD(1) cD(2) by simp
    show "\<forall>b z. ?memo b = Some z \<longrightarrow> b < n0 \<and> n0 \<le> z \<and> z < next_obj ?s1"
      using cD(1) a by (auto split: if_splits dest: cD(3))
    show "\<forall>b. n0 \<le> b \<and> b < next_obj ?s1 \<longrightarrow> obj_refs (objs ?s1 b) \<subseteq> {n0 ..< next_obj ?s1}"
    proof (intro allI impI)
      fix b assume "n0 \<le> b \<and> b < next_obj ?s1"
      then show "obj_refs (objs ?s1 b) \<subseteq> {n0 ..< next_obj ?s1}"
        using cD(4) [of b] by (cases "b = next_obj s") auto
    qed
  qed
qed

lemma copying_items:
  "copying n0 memo s \<Longrightarrow> a < n0 \<Longrightarrow>
     \<forall>kv \<in> set (items_of (objs s a)). val_refs (snd kv) \<subseteq> {..< n0}"
  using copyingD(2) [of n0 memo s a] by (auto simp: obj_refs_def)

lemma copying_dom: "copying n0 memo s \<Longrightarrow> dom memo \<subseteq> {..< n0}"
  unfolding copying_def by blast

lemma copying_finite: "copying n0 memo s \<Longrightarrow> finite (dom memo)"
  by (rule finite_subset [OF copying_dom]) simp_all

lemma card_dom_memo:
  assumes c: "copying n0 memo s" and a: "a < n0" and none: "memo a = None"
  shows "card (dom memo) < n0" and "card (dom (memo(a \<mapsto> y))) = Suc (card (dom memo))"
    and "finite (dom memo)"
proof -
  have sub: "dom memo \<subseteq> {..< n0} - {a}"
    using copying_dom [OF c] none by auto
  then show fin: "finite (dom memo)"
    by (rule finite_subset) simp
  have "card (dom memo) \<le> card ({..< n0} - {a})"
    using sub by (intro card_mono) simp_all
  also have "\<dots> < n0"
    using a by (simp add: card_Diff_singleton_if)
  finally show "card (dom memo) < n0" .
  show "card (dom (memo(a \<mapsto> y))) = Suc (card (dom memo))"
    using fin none by (simp add: domIff)
qed

lemma deepcopy_total:
  "copying n0 memo s \<Longrightarrow> val_refs v \<subseteq> {..< n0} \<Longrightarrow> n0 \<le> fuel + card (dom memo) \<Longrightarrow>
     deepcopy fuel v memo s \<noteq> None"
  and deepcopy_items_total:
  "copying n0 memo s \<Longrightarrow> (\<forall>kv \<in> set items. val_refs (snd kv) \<subseteq> {..< n0}) \<Longrightarrow>
     n0 \<le> y \<Longrightarrow> y < next_obj s \<Longrightarrow> n0 \<le> n + card (dom memo) \<Longrightarrow>
     deepcopy_items n items y memo s \<noteq> None"
proof (induction fuel v memo s and n items y memo s rule: deepcopy_deepcopy_items.induct)
  case (1 fuel a memo s)
  show ?case
  proof (cases "memo a")
    case (Some y)
    then show ?thesis by simp
  next
    case None
    from "1.prems"(2) have a: "a < n0" by simp
    note cd = card_dom_memo [OF "1.prems"(1) a None]
    from cd(1) "1.prems"(3) obtain n where fuel: "fuel = Suc n"
      by (cases fuel) auto
    let ?y = "next_obj s"
    let ?s1 = "s\<lparr>objs := (objs s)(?y := empty_like (objs s a)), next_obj := Suc ?y\<rparr>"
    have c1: "copying n0 (memo(a \<mapsto> ?y)) ?s1"
      by (rule copying_alloc [OF "1.prems"(1) a])
    have y: "n0 \<le> ?y" "?y < next_obj ?s1"
      using copyingD(1) [OF "1.prems"(1)] by simp_all
    have f: "n0 \<le> n + card (dom (memo(a \<mapsto> ?y)))"
      using "1.prems"(3) fuel cd(2) [of ?y] by simp
    have "deepcopy_items n (items_of (objs s a)) ?y (memo(a \<mapsto> ?y)) ?s1 \<noteq> None"
      by (rule "1.IH" [OF None fuel refl refl c1 copying_items [OF "1.prems"(1) a] y f])
    then obtain memo' s' where
      "deepcopy_items n (items_of (objs s a)) ?y (memo(a \<mapsto> ?y)) ?s1 = Some (memo', s')"
      by auto
    then show ?thesis
      using None fuel by (simp add: Let_def)
  qed
next
  case (7 n k v rest y memo s)
  have vr: "val_refs v \<subseteq> {..< n0}"
    using "7.prems"(2) by simp
  from "7.IH"(1) [OF "7.prems"(1) vr "7.prems"(5)]
  obtain w memo1 s1 where first: "deepcopy n v memo s = Some (w, memo1, s1)"
    by auto
  from deepcopy_inv [OF first "7.prems"(1) vr]
  have inv: "copying n0 memo1 s1" "memo \<subseteq>\<^sub>m memo1" "next_obj s \<le> next_obj s1"
    "val_refs w \<subseteq> {n0 ..< next_obj s1}"
    by simp_all
  let ?s1' = "s1\<lparr>objs := (objs s1)(y := add_item k w (objs s1 y))\<rparr>"
  have y1: "y < next_obj s1"
    using "7.prems"(4) inv(3) by simp
  have c1: "copying n0 memo1 ?s1'"
    by (rule copying_add_item [OF inv(1) "7.prems"(3) y1 inv(4)])
  have fin: "finite (dom memo1)"
    by (rule copying_finite [OF inv(1)])
  have "dom memo \<subseteq> dom memo1"
    by (rule map_le_implies_dom_le [OF inv(2)])
  with fin have "card (dom memo) \<le> card (dom memo1)"
    by (rule card_mono)
  then have f: "n0 \<le> n + card (dom memo1)"
    using "7.prems"(5) by simp
  have items: "\<forall>kv \<in> set rest. val_refs (snd kv) \<subseteq> {..< n0}"
    using "7.prems"(2) by simp
  have y1': "y < next_obj ?s1'"
    using y1 by simp
  from "7.IH"(2) [OF first refl refl c1 items "7.prems"(3) y1' f]
  show ?case
    using first by simp
qed simp_all

section \<open>The copy has the shape of the original\<close>

lemma rename_cong: "(\<forall>b \<in> val_refs v. f b = g b) \<Longrightarrow> rename f v = rename g v"
  by (cases v) simp_all

lemma map_obj_rename_cong:
  assumes "\<forall>b \<in> obj_refs ob. f b = g b"
  shows "map_obj (rename f) ob = map_obj (rename g) ob"
proof (cases ob)
  case (OList xs)
  with assms show ?thesis
    by (auto simp: obj_refs_OList intro!: rename_cong)
next
  case (ODict d)
  with assms show ?thesis
    by (auto simp: obj_refs_ODict intro!: rename_cong)
qed

lemma memo_fun_mono: "memo \<subseteq>\<^sub>m memo' \<Longrightarrow> b \<in> dom memo \<Longrightarrow> memo_fun memo' b = memo_fun memo b"
  by (auto simp: memo_fun_def map_le_def dom_def split: option.splits)

lemma copied_mono:
  assumes c: "copied h0 memo s a" and le: "memo \<subseteq>\<^sub>m memo'"
    and same: "objs s' (memo_fun memo a) = objs s (memo_fun memo a)"
  shows "copied h0 memo' s' a"
proof -
  from c have a: "a \<in> dom memo" and refs: "obj_refs (h0 a) \<subseteq> dom memo"
    and eq: "objs s (memo_fun memo a) = map_obj (rename (memo_fun memo)) (h0 a)"
    by (auto simp: copied_def)
  have "memo_fun memo' a = memo_fun memo a"
    by (rule memo_fun_mono [OF le a])
  moreover have "map_obj (rename (memo_fun memo')) (h0 a) = map_obj (rename (memo_fun memo)) (h0 a)"
    using refs by (intro map_obj_rename_cong ballI memo_fun_mono [OF le]) auto
  moreover have "memo' a \<noteq> None"
    using a le by (auto simp: map_le_def dom_def)
  moreover have "obj_refs (h0 a) \<subseteq> dom memo'"
    using refs map_le_implies_dom_le [OF le] by blast
  ultimately show ?thesis
    using same eq by (simp add: copied_def)
qed

lemma fold_add_item_list:
  "fold (\<lambda>kv. add_item (fst kv) (g (snd kv))) (map (\<lambda>v. (None, v)) vs) (OList xs) = OList (xs @ map g vs)"
  by (induction vs arbitrary: xs) simp_all

lemma update_append_new: "k \<notin> fst ` set d \<Longrightarrow> AList.update k v d = d @ [(k, v)]"
  by (induction d) auto

lemma fold_add_item_dict:
  "distinct (map fst kvs) \<Longrightarrow> fst ` set kvs \<inter> fst ` set d = {} \<Longrightarrow>
   fold (\<lambda>kv. add_item (fst kv) (g (snd kv))) (map (\<lambda>(k, v). (Some k, v)) kvs) (ODict d) =
     ODict (d @ map (\<lambda>(k, v). (k, g v)) kvs)"
proof (induction kvs arbitrary: d)
  case Nil
  then show ?case by simp
next
  case (Cons kv kvs)
  obtain k v where kv: "kv = (k, v)" by (cases kv)
  from Cons.prems have new: "k \<notin> fst ` set d" and d: "distinct (map fst kvs)"
    and disj: "fst ` set kvs \<inter> fst ` set (d @ [(k, g v)]) = {}"
    by (auto simp: kv)
  show ?case
    using Cons.IH [OF d disj] by (simp add: kv update_append_new [OF new])
qed

lemma fold_add_item_empty_like:
  assumes "distinct (map fst (dict_items ob))"
  shows "fold (\<lambda>kv. add_item (fst kv) (g (snd kv))) (items_of ob) (empty_like ob) = map_obj g ob"
proof (cases ob)
  case (OList xs)
  then show ?thesis by (simp add: fold_add_item_list)
next
  case (ODict d)
  with assms fold_add_item_dict [of d "[]" g] show ?thesis by simp
qed

lemma memo_inj_alloc:
  assumes "copying n0 memo s" and "memo_inj memo"
  shows "memo_inj (memo(a \<mapsto> next_obj s))"
  unfolding memo_inj_def
proof (intro allI impI)
  fix b c z
  assume h: "(memo(a \<mapsto> next_obj s)) b = Some z \<and> (memo(a \<mapsto> next_obj s)) c = Some z"
  have old: "memo d = Some z' \<Longrightarrow> z' \<noteq> next_obj s" for d z'
    using copyingD(3) [OF assms(1), of d z'] by simp
  show "b = c"
    using h assms(2) old unfolding memo_inj_def
    by (auto split: if_splits)
qed

lemma deepcopy_iso:
  assumes dist: "\<forall>a < n0. distinct (map fst (dict_items (h0 a)))"
  shows
  "deepcopy fuel v memo s = Some (v', memo', s') \<Longrightarrow> copying n0 memo s \<Longrightarrow>
     val_refs v \<subseteq> {..< n0} \<Longrightarrow> (\<forall>a < n0. objs s a = h0 a) \<Longrightarrow> memo_inj memo \<Longrightarrow>
     v' = rename (memo_fun memo') v \<and> val_refs v \<subseteq> dom memo' \<and> memo_inj memo' \<and>
     (\<forall>a. memo a = None \<and> memo' a \<noteq> None \<longrightarrow>
          copied h0 memo' s' a \<and> next_obj s \<le> memo_fun memo' a)"
  and
  "deepcopy_items n items y memo s = Some (memo', s') \<Longrightarrow> copying n0 memo s \<Longrightarrow>
     (\<forall>kv \<in> set items. val_refs (snd kv) \<subseteq> {..< n0}) \<Longrightarrow> n0 \<le> y \<Longrightarrow> y < next_obj s \<Longrightarrow>
     (\<forall>a < n0. objs s a = h0 a) \<Longrightarrow> memo_inj memo \<Longrightarrow>
     objs s' y = fold (\<lambda>kv. add_item (fst kv) (rename (memo_fun memo') (snd kv))) items (objs s y) \<and>
     (\<forall>kv \<in> set items. val_refs (snd kv) \<subseteq> dom memo') \<and> memo_inj memo' \<and>
     (\<forall>a. memo a = None \<and> memo' a \<noteq> None \<longrightarrow>
          copied h0 memo' s' a \<and> next_obj s \<le> memo_fun memo' a)"
proof (induction fuel v memo s and n items y memo s
    arbitrary: v' memo' s' and memo' s' rule: deepcopy_deepcopy_items.induct)
  case (1 fuel a memo s)
  show ?case
  proof (cases "memo a")
    case (Some y)
    with "1.prems" show ?thesis
      by (auto simp: memo_fun_def)
  next
    case None
    with "1.prems"(1) obtain n where fuel: "fuel = Suc n"
      by (cases fuel) auto
    let ?y = "next_obj s"
    let ?s1 = "s\<lparr>objs := (objs s)(?y := empty_like (objs s a)), next_obj := Suc ?y\<rparr>"
    let ?memo1 = "memo(a \<mapsto> ?y)"
    from "1.prems"(1) None fuel
    have run: "deepcopy_items n (items_of (objs s a)) ?y ?memo1 ?s1 = Some (memo', s')"
      and v': "v' = VRef ?y"
      by (auto simp: Let_def split: option.splits)
    from "1.prems"(3) have a: "a < n0" by simp
    have c1: "copying n0 ?memo1 ?s1"
      by (rule copying_alloc [OF "1.prems"(2) a])
    note items = copying_items [OF "1.prems"(2) a]
    have y: "n0 \<le> ?y" "?y < next_obj ?s1"
      using copyingD(1) [OF "1.prems"(2)] by simp_all
    have old1: "\<forall>b < n0. objs ?s1 b = h0 b"
      using "1.prems"(4) y(1) by simp
    have inj1: "memo_inj ?memo1"
      by (rule memo_inj_alloc [OF "1.prems"(2) "1.prems"(5)])
    have ih: "objs s' ?y = fold (\<lambda>kv. add_item (fst kv) (rename (memo_fun memo') (snd kv)))
                 (items_of (objs s a)) (objs ?s1 ?y) \<and>
       (\<forall>kv \<in> set (items_of (objs s a)). val_refs (snd kv) \<subseteq> dom memo') \<and> memo_inj memo' \<and>
       (\<forall>b. ?memo1 b = None \<and> memo' b \<noteq> None \<longrightarrow>
            copied h0 memo' s' b \<and> next_obj ?s1 \<le> memo_fun memo' b)"
      by (rule "1.IH" [OF None fuel refl refl run c1 items y old1 inj1])
    from deepcopy_items_inv [OF run c1 items y]
    have le: "?memo1 \<subseteq>\<^sub>m memo'"
      by simp
    then have ma: "memo' a = Some ?y"
      by (auto simp: map_le_def)
    then have mf: "memo_fun memo' a = ?y"
      by (simp add: memo_fun_def)
    have h0a: "objs s a = h0 a"
      using "1.prems"(4) a by simp
    have "objs s' ?y = map_obj (rename (memo_fun memo')) (h0 a)"
      using ih dist a h0a by (simp add: fold_add_item_empty_like)
    moreover have "obj_refs (h0 a) \<subseteq> dom memo'"
      using ih h0a by (auto simp: obj_refs_def)
    ultimately have ca: "copied h0 memo' s' a"
      using ma mf by (simp add: copied_def)
    have new: "\<forall>b. memo b = None \<and> memo' b \<noteq> None \<longrightarrow>
          copied h0 memo' s' b \<and> next_obj s \<le> memo_fun memo' b"
    proof (intro allI impI)
      fix b assume b: "memo b = None \<and> memo' b \<noteq> None"
      show "copied h0 memo' s' b \<and> next_obj s \<le> memo_fun memo' b"
      proof (cases "b = a")
        case True
        with ca mf show ?thesis by simp
      next
        case False
        with b have "?memo1 b = None \<and> memo' b \<noteq> None" by simp
        with ih have "copied h0 memo' s' b \<and> next_obj ?s1 \<le> memo_fun memo' b" by blast
        then show ?thesis by simp
      qed
    qed
    have "v' = rename (memo_fun memo') (VRef a)"
      using v' mf by simp
    moreover have "val_refs (VRef a) \<subseteq> dom memo'"
      using ma by auto
    ultimately show ?thesis
      using ih new by blast
  qed
next
  case (6 n y memo s)
  then show ?case by auto
next
  case (7 n k v rest y memo s)
  from "7.prems"(1) obtain w memo1 s1 where
    first: "deepcopy n v memo s = Some (w, memo1, s1)"
    by (auto split: option.splits)
  let ?s1' = "s1\<lparr>objs := (objs s1)(y := add_item k w (objs s1 y))\<rparr>"
  from "7.prems"(1) first
  have rest: "deepcopy_items n rest y memo1 ?s1' = Some (memo', s')"
    by simp
  have vr: "val_refs v \<subseteq> {..< n0}"
    using "7.prems"(3) by simp
  from deepcopy_inv [OF first "7.prems"(2) vr]
  have inv1: "copying n0 memo1 s1" "memo \<subseteq>\<^sub>m memo1" "next_obj s \<le> next_obj s1"
    "\<forall>b < next_obj s. objs s1 b = objs s b" "val_refs w \<subseteq> {n0 ..< next_obj s1}"
    by simp_all
  have ih1: "w = rename (memo_fun memo1) v \<and> val_refs v \<subseteq> dom memo1 \<and> memo_inj memo1 \<and>
     (\<forall>a. memo a = None \<and> memo1 a \<noteq> None \<longrightarrow>
          copied h0 memo1 s1 a \<and> next_obj s \<le> memo_fun memo1 a)"
    by (rule "7.IH"(1) [OF first "7.prems"(2) vr "7.prems"(6) "7.prems"(7)])
  have y1: "y < next_obj s1"
    using "7.prems"(5) inv1(3) by simp
  have c1: "copying n0 memo1 ?s1'"
    by (rule copying_add_item [OF inv1(1) "7.prems"(4) y1 inv1(5)])
  have items: "\<forall>kv \<in> set rest. val_refs (snd kv) \<subseteq> {..< n0}"
    using "7.prems"(3) by simp
  have y1': "y < next_obj ?s1'"
    using y1 by simp
  have n0s: "n0 \<le> next_obj s"
    by (rule copyingD(1) [OF "7.prems"(2)])
  have old1: "\<forall>a < n0. objs ?s1' a = h0 a"
    using "7.prems"(4,6) inv1(4) n0s by simp
  have ih2: "objs s' y = fold (\<lambda>kv. add_item (fst kv) (rename (memo_fun memo') (snd kv))) rest
                 (objs ?s1' y) \<and>
     (\<forall>kv \<in> set rest. val_refs (snd kv) \<subseteq> dom memo') \<and> memo_inj memo' \<and>
     (\<forall>a. memo1 a = None \<and> memo' a \<noteq> None \<longrightarrow>
          copied h0 memo' s' a \<and> next_obj ?s1' \<le> memo_fun memo' a)"
    using ih1 by (intro "7.IH"(2) [OF first refl refl rest c1 items "7.prems"(4) y1' old1]) simp
  from deepcopy_items_inv [OF rest c1 items "7.prems"(4) y1']
  have inv2: "memo1 \<subseteq>\<^sub>m memo'" "\<forall>b < next_obj ?s1'. b \<noteq> y \<longrightarrow> objs s' b = objs ?s1' b"
    by simp_all
  have wv: "w = rename (memo_fun memo') v"
  proof -
    have "rename (memo_fun memo') v = rename (memo_fun memo1) v"
      using ih1 by (intro rename_cong ballI memo_fun_mono [OF inv2(1)]) auto
    with ih1 show ?thesis by simp
  qed
  have ys: "objs s1 y = objs s y"
    using inv1(4) "7.prems"(5) by simp
  have part1: "objs s' y = fold (\<lambda>kv. add_item (fst kv) (rename (memo_fun memo') (snd kv)))
      ((k, v) # rest) (objs s y)"
    using ih2 wv ys by simp
  have v_dom: "val_refs v \<subseteq> dom memo'"
    using ih1 map_le_implies_dom_le [OF inv2(1)] by blast
  have part2: "\<forall>kv \<in> set ((k, v) # rest). val_refs (snd kv) \<subseteq> dom memo'"
    using v_dom ih2 by simp
  have part4: "\<forall>a. memo a = None \<and> memo' a \<noteq> None \<longrightarrow>
          copied h0 memo' s' a \<and> next_obj s \<le> memo_fun memo' a"
  proof (intro allI impI)
    fix a assume a: "memo a = None \<and> memo' a \<noteq> None"
    show "copied h0 memo' s' a \<and> next_obj s \<le> memo_fun memo' a"
    proof (cases "memo1 a")
      case None
      with a ih2 have "copied h0 memo' s' a \<and> next_obj ?s1' \<le> memo_fun memo' a" by blast
      with inv1(3) show ?thesis by simp
    next
      case (Some z)
      with a ih1 have c: "copied h0 memo1 s1 a" and z: "next_obj s \<le> memo_fun memo1 a"
        by auto
      have mz: "memo_fun memo1 a = z"
        using Some by (simp add: memo_fun_def)
      have zlt: "z < next_obj s1"
        using copyingD(3) [OF inv1(1) Some] by simp
      have zy: "z \<noteq> y"
        using z mz "7.prems"(5) by simp
      have same: "objs s' (memo_fun memo1 a) = objs s1 (memo_fun memo1 a)"
        using inv2(2) zlt zy mz by simp
      have "copied h0 memo' s' a"
        by (rule copied_mono [OF c inv2(1) same])
      moreover have "memo_fun memo' a = memo_fun memo1 a"
        using Some by (intro memo_fun_mono [OF inv2(1)]) auto
      ultimately show ?thesis
        using z by simp
    qed
  qed
  from part1 part2 part4 ih2 show ?case
    by blast
qed auto

lemma copying_start: "heap_wf s \<Longrightarrow> copying (next_obj s) Map.empty s"
  by (auto simp: copying_def heap_wf_def)

lemma memo_inj_empty: "memo_inj Map.empty"
  by (simp add: memo_inj_def)

lemma isolated_from:
  assumes disj: "reach h r \<inter> W = {}" and same: "\<forall>b. b \<notin> W \<longrightarrow> h' b = h b"
  shows "reach h' r = reach h r \<and> (\<forall>b \<in> reach h r. h' b = h b)"
proof -
  have same': "\<forall>b \<in> reach h r. h' b = h b"
    using disj same by blast
  show ?thesis
    by (intro conjI reach_cong same')
qed

section \<open>What the constructor and the accessors keep\<close>

lemma FlowContext_init_id:
  "\<forall>n. uuid_stream s n \<noteq> [] \<Longrightarrow> correlation_id (fst (FlowContext_init cid md s)) \<noteq> []"
  by (simp add: FlowContext_init_def uuid4_hex_def new_dict_def split: option.splits prod.splits)

lemma heap_wf_new_dict:
  assumes "heap_wf s"
  shows "heap_wf (snd (new_dict s))"
  unfolding heap_wf_def
proof (intro allI impI)
  fix a assume "a < next_obj (snd (new_dict s))"
  then have "a < next_obj s \<or> a = next_obj s"
    by (auto simp: new_dict_def)
  then show "obj_refs (objs (snd (new_dict s)) a) \<subseteq> {..< next_obj (snd (new_dict s))} \<and>
      distinct (map fst (dict_items (objs (snd (new_dict s)) a)))"
  proof
    assume a: "a < next_obj s"
    with assms have "obj_refs (objs s a) \<subseteq> {..< next_obj s}"
      "distinct (map fst (dict_items (objs s a)))"
      by (simp_all add: heap_wf_def)
    with a show ?thesis
      by (auto simp: new_dict_def)
  next
    assume "a = next_obj s"
    then show ?thesis
      by (simp add: new_dict_def obj_refs_ODict)
  qed
qed

lemma heap_wf_FlowContext_init:
  assumes "heap_wf s"
  shows "heap_wf (snd (FlowContext_init cid None s)) \<and>
         metadata_dict (fst (FlowContext_init cid None s)) < next_obj (snd (FlowContext_init cid None s))"
proof -
  have u: "heap_wf (snd (uuid4_hex s))"
    using assms by (simp add: heap_wf_def uuid4_hex_def)
  show ?thesis
    using assms u heap_wf_new_dict [of s] heap_wf_new_dict [of "snd (uuid4_hex s)"]
    by (auto simp: FlowContext_init_def new_dict_def uuid4_hex_def split: option.splits)
qed

lemma distinct_keys_add_item:
  "distinct (map fst (dict_items ob)) \<Longrightarrow> distinct (map fst (dict_items (add_item k v ob)))"
  by (cases ob; cases k) (simp_all add: distinct_update)

lemma heap_wf_set_value:
  assumes wf: "heap_wf s" and v: "val_refs v \<subseteq> {..< next_obj s}"
  shows "heap_wf (set_value ctx key v s)"
  unfolding heap_wf_def
proof (intro allI impI)
  fix a assume a: "a < next_obj (set_value ctx key v s)"
  then have a': "a < next_obj s"
    by (simp add: set_value_def)
  with wf have old: "obj_refs (objs s a) \<subseteq> {..< next_obj s}"
    "distinct (map fst (dict_items (objs s a)))"
    by (simp_all add: heap_wf_def)
  show "obj_refs (objs (set_value ctx key v s) a) \<subseteq> {..< next_obj (set_value ctx key v s)} \<and>
        distinct (map fst (dict_items (objs (set_value ctx key v s) a)))"
  proof (cases "a = metadata_dict ctx")
    case True
    have "obj_refs (add_item (Some key) v (objs s a)) \<subseteq> {..< next_obj s}"
      using obj_refs_add_item [of "Some key" v "objs s a"] old(1) v by blast
    with True old(2) show ?thesis
      by (simp add: set_value_def distinct_keys_add_item)
  next
    case False
    with old show ?thesis
      by (simp add: set_value_def)
  qed
qed

lemma heap_wf_delete_value:
  assumes wf: "heap_wf s"
  shows "heap_wf (snd (delete_value ctx key s))"
proof (cases "map_of (dict_items (objs s (metadata_dict ctx))) key")
  case None
  with wf show ?thesis
    by (simp add: delete_value_def)
next
  case (Some v)
  let ?m = "metadata_dict ctx"
  have sub: "set (AList.delete key (dict_items (objs s ?m))) \<subseteq> set (dict_items (objs s ?m))"
    by (auto simp: AList.delete_eq)
  have refs: "obj_refs (ODict (AList.delete key (dict_items (objs s ?m)))) \<subseteq> obj_refs (objs s ?m)"
  proof (cases "objs s ?m")
    case (OList xs)
    then show ?thesis by (simp add: obj_refs_ODict)
  next
    case (ODict d)
    with sub show ?thesis by (auto simp: obj_refs_ODict)
  qed
  show ?thesis
    unfolding heap_wf_def
  proof (intro allI impI)
    fix a assume "a < next_obj (snd (delete_value ctx key s))"
    then have a: "a < next_obj s"
      using Some by (simp add: delete_value_def)
    with wf have old: "obj_refs (objs s a) \<subseteq> {..< next_obj s}"
      "distinct (map fst (dict_items (objs s a)))"
      by (simp_all add: heap_wf_def)
    show "obj_refs (objs (snd (delete_value ctx key s)) a)
            \<subseteq> {..< next_obj (snd (delete_value ctx key s))} \<and>
          distinct (map fst (dict_items (objs (snd (delete_value ctx key s)) a)))"
    proof (cases "a = ?m")
      case True
      with old refs Some show ?thesis
        by (auto simp: delete_value_def distinct_delete)
    next
      case False
      with old Some show ?thesis
        by (simp add: delete_value_def)
    qed
  qed
qed

section \<open>The configuration and the wrappers\<close>

lemma get_backend_config_ok:
  "config_ok s \<Longrightarrow> \<exists>b. fst (get_backend s) = Return b"
  by (auto simp: get_backend_def config_ok_def split: option.splits)

lemma config_ok_FlowContext_init: "config_ok (snd (FlowContext_init cid md s)) = config_ok s"
  by (simp add: FlowContext_init_def config_ok_def uuid4_hex_def new_dict_def Let_def
      split: option.splits prod.splits)

lemma config_ok_configure: "config_ok s \<Longrightarrow> config_ok (snd (configure repr arg s))"
  by (auto simp: configure_def config_ok_def split: backend_arg.splits)

lemma config_ok_get_backend: "config_ok s \<Longrightarrow> config_ok (snd (get_backend s))"
  by (auto simp: get_backend_def config_ok_def split: option.splits)

lemma config_ok_reset: "config_ok (reset s)"
  by (simp add: reset_def config_ok_def)

lemma entrypoint_wrapper_resets:
  assumes "config_ok s"
  shows "flow_context_var (snd (entrypoint_wrapper ext w fn s)) = None"
proof -
  obtain ctx s1 where i: "FlowContext_init None None s = (ctx, s1)"
    by (cases "FlowContext_init None None s")
  have "config_ok s1"
    using config_ok_FlowContext_init [of None None s] i assms by simp
  then have "config_ok (set_context ctx s1)"
    by (simp add: config_ok_def set_context_def)
  then obtain b where b: "fst (get_backend (set_context ctx s1)) = Return b"
    using get_backend_config_ok by blast
  show ?thesis
    using b
    by (cases "get_backend (set_context ctx s1)")
       (simp add: entrypoint_wrapper_def i Let_def reset_context_def split: prod.splits)
qed

lemmas demo_defs = demo_state_def demo_ext_def demo_wrapped_def fn_probe_def fn_fail_def
  outer_state_def

lemmas wrapper_defs = entrypoint_wrapper_def step_wrapper_def with_span_def span_enter_def
  span_exit_def get_backend_def auto_detect_def FlowContext_init_def uuid4_hex_def new_dict_def
  set_context_def reset_context_def logging_get_correlation_id_def current_flow_id_def
  get_flow_context_def resolve_flow_name_def rsplit_dot_def get_or_create_context_def

lemma resolve_demo: "resolve_flow_name demo_wrapped = ''Order''"
  by (simp add: resolve_flow_name_def rsplit_dot_def demo_wrapped_def)

lemma get_backend_frame:
  "configured s' = configured s \<Longrightarrow> backend_slot s' = backend_slot s \<Longrightarrow>
   has_otel s' = has_otel s \<Longrightarrow>
     fst (get_backend s') = fst (get_backend s) \<and>
     flow_context_var (snd (get_backend s')) = flow_context_var s' \<and>
     objs (snd (get_backend s')) = objs s'"
  by (simp add: get_backend_def auto_detect_def split: option.splits)

lemma fork_state_wf: "heap_wf fork_state"
  by (simp add: heap_wf_def fork_state_def obj_refs_def less_Suc_eq numeral_2_eq_2)

lemma fork_example:
  "\<exists>s'. fork 2 fork_parent fork_state = Some (\<lparr>correlation_id = ''cid'', metadata_dict = 2\<rparr>, s') \<and>
        objs s' 0 = ODict [(''user'', VStr ''ann''), (''tags'', VRef 1)] \<and>
        objs s' 1 = OList [VInt 1, VRef 0] \<and>
        objs s' 2 = ODict [(''user'', VStr ''ann''), (''tags'', VRef 3)] \<and>
        objs s' 3 = OList [VInt 1, VRef 2]"
  by (simp add: fork_def fork_parent_def fork_state_def demo_state_def FlowContext_init_def
      numeral_2_eq_2 numeral_3_eq_3 Let_def)

section \<open>Claims about the registry\<close>

text \<open>
  C1. \<open>register\<close> on a step whose flow and step name have no entry returns normally and
  the step is then the entry read back under that key. When the entry under the key is
  equal to the step, the call returns normally and the state is the one before the call;
  so a second registration of a step just registered changes nothing. When the entry
  under the key differs from the step, the call raises \<open>ValueError\<close> with a message that
  names the step and the flow, the state is the one before the call, and the old entry is
  still read back under the key.
\<close>

theorem C1_register:
  "(lookup_step s (flow_name info) (StepInfo.name info) = None \<longrightarrow>
      fst (register info s) = Return () \<and>
      lookup_step (snd (register info s)) (flow_name info) (StepInfo.name info) = Some info) \<and>
   (lookup_step s (flow_name info) (StepInfo.name info) = Some info \<longrightarrow>
      register info s = (Return (), s)) \<and>
   (\<forall>existing.
      lookup_step s (flow_name info) (StepInfo.name info) = Some existing \<and> existing \<noteq> info \<longrightarrow>
      register info s =
        (Raise (ValueError (''Conflicting registration for step '' @ quoted (StepInfo.name info) @
                            '' in flow '' @ quoted (flow_name info))), s) \<and>
      lookup_step (snd (register info s)) (flow_name info) (StepInfo.name info) = Some existing) \<and>
   (fst (register info s) = Return () \<longrightarrow>
      register info (snd (register info s)) = (Return (), snd (register info s))) \<and>
   (reg_inv s \<longrightarrow>
      (\<forall>flow step. (flow, step) \<noteq> (flow_name info, StepInfo.name info) \<longrightarrow>
         lookup_step (snd (register info s)) flow step = lookup_step s flow step))"
proof -
  note defs = register_def setdefault_flow_def lookup_step_def Let_def conflict_message_def
    update_conv'
  have inserted: "lookup_step s (flow_name info) (StepInfo.name info) = None \<longrightarrow>
      fst (register info s) = Return () \<and>
      lookup_step (snd (register info s)) (flow_name info) (StepInfo.name info) = Some info"
    by (auto simp: defs split: option.splits)
  have same: "lookup_step s (flow_name info) (StepInfo.name info) = Some info \<longrightarrow>
      register info s = (Return (), s)"
    by (auto simp: defs split: option.splits)
  have conflict: "\<forall>existing.
      lookup_step s (flow_name info) (StepInfo.name info) = Some existing \<and> existing \<noteq> info \<longrightarrow>
      register info s =
        (Raise (ValueError (''Conflicting registration for step '' @ quoted (StepInfo.name info) @
                            '' in flow '' @ quoted (flow_name info))), s) \<and>
      lookup_step (snd (register info s)) (flow_name info) (StepInfo.name info) = Some existing"
    by (auto simp: defs split: option.splits)
  have twice: "fst (register info s) = Return () \<longrightarrow>
      register info (snd (register info s)) = (Return (), snd (register info s))"
    by (auto simp: defs split: option.splits)
  have others: "reg_inv s \<longrightarrow>
      (\<forall>flow step. (flow, step) \<noteq> (flow_name info, StepInfo.name info) \<longrightarrow>
         lookup_step (snd (register info s)) flow step = lookup_step s flow step)"
    by (intro impI allI) (rule register_frame)
  show ?thesis
    by (intro conjI inserted same conflict twice others)
qed

theorem C1_register_witness:
  "lookup_step init_state ''order'' ''a'' = None \<and>
   fst (register order_a init_state) = Return () \<and>
   lookup_step (snd (register order_a init_state)) ''order'' ''a'' = Some order_a \<and>
   register order_a (snd (register order_a init_state)) =
     (Return (), snd (register order_a init_state)) \<and>
   order_a_changed \<noteq> order_a \<and>
   register order_a_changed (snd (register order_a init_state)) =
     (Raise (ValueError (''Conflicting registration for step '' @ quoted ''a'' @
                         '' in flow '' @ quoted ''order'')),
      snd (register order_a init_state)) \<and>
   lookup_step (snd (register order_a_changed (snd (register order_a init_state))))
     ''order'' ''a'' = Some order_a \<and>
   reg_inv (snd (register order_a init_state)) \<and>
   lookup_step (snd (register order_b (snd (register order_a init_state)))) ''order'' ''a'' =
     Some order_a"
proof -
  let ?s1 = "snd (register order_a init_state)"
  have l0: "lookup_step init_state (flow_name order_a) (StepInfo.name order_a) = None"
    by (simp add: lookup_step_def init_state_def)
  have l1: "lookup_step ?s1 ''order'' ''a'' = Some order_a"
    by (simp add: lookup_step_def register_def setdefault_flow_def init_state_def order_a_def)
  have ne: "order_a_changed \<noteq> order_a"
    by (simp add: order_a_changed_def order_a_def)
  have n: "flow_name order_a = ''order''" "StepInfo.name order_a = ''a''"
    "flow_name order_a_changed = ''order''" "StepInfo.name order_a_changed = ''a''"
    "flow_name order_b = ''order''" "StepInfo.name order_b = ''b''"
    by (simp_all add: order_a_changed_def order_a_def order_b_def)
  have inv: "reg_inv ?s1"
    by (rule reg_inv_register [OF reg_inv_init])
  have other: "(''order'', ''a'') \<noteq> (flow_name order_b, StepInfo.name order_b)"
    by (simp add: n)
  note ins = C1_register [of init_state order_a, THEN conjunct1, rule_format, OF l0, unfolded n]
  note again = C1_register [of init_state order_a, THEN conjunct2, THEN conjunct2,
      THEN conjunct2, THEN conjunct1, rule_format, OF ins [THEN conjunct1]]
  note same = C1_register [of ?s1 order_a, THEN conjunct2, THEN conjunct1, rule_format,
      unfolded n, OF l1]
  note conflict = C1_register [of ?s1 order_a_changed, THEN conjunct2, THEN conjunct2,
      THEN conjunct1, rule_format, of order_a, unfolded n, OF conjI [OF l1 ne [symmetric]]]
  note kept = C1_register [of ?s1 order_b, THEN conjunct2, THEN conjunct2, THEN conjunct2,
      THEN conjunct2, rule_format, OF inv other, unfolded l1]
  show ?thesis
    using l0 [unfolded n] ins again same conflict ne inv kept by (intro conjI) simp_all
qed

text \<open>
  C2. Let \<open>get_flow\<close> return a \<open>FlowInfo\<close> in a state reached from the empty registry
  by any calls. Its \<open>steps\<close> dictionary then holds the flow's entries of that moment, and
  after any further calls (registrations for this flow or another, lookups, validations,
  renderings, \<open>clear\<close>) that dictionary is what it was. Its \<open>entrypoints\<close> are the names of
  the entrypoint steps among those entries; as a frozenset inside a frozen dataclass it
  is a value, which no later call can reach.
\<close>

theorem C2_snapshot_isolation:
  assumes "get_flow flow (run repr before init_state) = (Return info, s1)"
  shows "dicts (run repr later s1) (steps info) = dicts s1 (steps info) \<and>
         map_of (dicts s1 (steps info)) = lookup_step (run repr before init_state) flow \<and>
         entrypoints info =
           {n. \<exists>st. st \<in> set (map snd (dicts s1 (steps info))) \<and> StepInfo.name st = n \<and> is_entrypoint st}"
proof -
  have inv: "reg_inv (run repr before init_state)"
    by (rule reg_inv_run) (rule reg_inv_init)
  from get_flow_detached [OF inv assms]
  have "detached (steps info) s1" .
  then have "dicts (run repr later s1) (steps info) = dicts s1 (steps info)"
    by (simp add: detached_run)
  moreover have "map_of (dicts s1 (steps info)) = lookup_step (run repr before init_state) flow"
    using assms by (auto simp: get_flow_def lookup_step_def Let_def split: option.splits)
  moreover have "entrypoints info =
           {n. \<exists>st. st \<in> set (map snd (dicts s1 (steps info))) \<and> StepInfo.name st = n \<and> is_entrypoint st}"
    using assms by (force simp: get_flow_def Let_def split: option.splits)
  ultimately show ?thesis by simp
qed

theorem C2_snapshot_isolation_witness:
  "get_flow ''order'' (run quoted [Register order_a] init_state) =
     (Return \<lparr>FlowInfo.name = ''order'', steps = 1, entrypoints = {''a''}\<rparr>,
      snd (get_flow ''order'' (run quoted [Register order_a] init_state))) \<and>
   dicts (run quoted [Register order_b, Register solo_z, Clear, Register order_a_changed]
           (snd (get_flow ''order'' (run quoted [Register order_a] init_state)))) 1 =
     [(''a'', order_a)] \<and>
   lookup_step (run quoted [Register order_b]
           (snd (get_flow ''order'' (run quoted [Register order_a] init_state)))) ''order'' ''b'' =
     Some order_b"
proof -
  let ?s1 = "snd (get_flow ''order'' (run quoted [Register order_a] init_state))"
  let ?info = "\<lparr>FlowInfo.name = ''order'', steps = 1, entrypoints = {''a''}\<rparr>"
  have g: "get_flow ''order'' (run quoted [Register order_a] init_state) = (Return ?info, ?s1)"
    by (simp add: get_flow_def run_def register_def setdefault_flow_def init_state_def
        order_a_def Let_def)
  have d: "dicts ?s1 1 = [(''a'', order_a)]"
    by (simp add: get_flow_def run_def register_def setdefault_flow_def init_state_def
        order_a_def Let_def)
  have l: "lookup_step (run quoted [Register order_b] ?s1) ''order'' ''b'' = Some order_b"
    by (simp add: lookup_step_def get_flow_def run_def register_def setdefault_flow_def
        init_state_def order_a_def order_b_def Let_def)
  show ?thesis
    using C2_snapshot_isolation [OF g,
        of "[Register order_b, Register solo_z, Clear, Register order_a_changed]"] g d l
    by simp
qed

text \<open>
  C3. \<open>validate_flow\<close> on a flow name that was never registered raises \<open>KeyError\<close>
  (flow not found). On a registered flow it returns normally when every name in every
  step's \<open>after\<close> is a step name of the flow. Otherwise it raises one \<open>ValueError\<close>
  whose message has, after its heading, one line
  \<^verbatim>\<open>  - Step 'X' references unknown step 'Y'\<close> for every step \<open>X\<close> and every entry \<open>Y\<close> of
  its \<open>after\<close> that is not a step name of the flow: all of them, in the order of the steps
  and of their \<open>after\<close> lists.
\<close>

theorem C3_validate_flow:
  "(map_of (registry_steps s) flow = None \<longrightarrow>
      fst (validate_flow flow s) = Raise (KeyError (''Flow '' @ quoted flow @ '' not found''))) \<and>
   (\<forall>a. map_of (registry_steps s) flow = Some a \<and>
        (\<forall>st \<in> set (map snd (dicts s a)). \<forall>r \<in> set (after st). r \<in> set (map fst (dicts s a))) \<longrightarrow>
      fst (validate_flow flow s) = Return ()) \<and>
   (\<forall>a. map_of (registry_steps s) flow = Some a \<and>
        \<not> (\<forall>st \<in> set (map snd (dicts s a)). \<forall>r \<in> set (after st). r \<in> set (map fst (dicts s a))) \<longrightarrow>
      fst (validate_flow flow s) =
        Raise (ValueError
          (''Flow '' @ quoted flow @ '' has invalid references:'' @
           concat (map (\<lambda>(x, y). newline @ ''  - Step '' @ quoted x @
                                  '' references unknown step '' @ quoted y)
             [(StepInfo.name st, r).
                st \<leftarrow> map snd (dicts s a), r \<leftarrow> after st, r \<notin> set (map fst (dicts s a))]))))"
proof (intro conjI allI impI)
  assume "map_of (registry_steps s) flow = None"
  then show "fst (validate_flow flow s) = Raise (KeyError (''Flow '' @ quoted flow @ '' not found''))"
    by (simp add: validate_flow_def get_flow_def not_found_message_def)
next
  fix a
  assume h: "map_of (registry_steps s) flow = Some a \<and>
        (\<forall>st \<in> set (map snd (dicts s a)). \<forall>r \<in> set (after st). r \<in> set (map fst (dicts s a)))"
  then have "missing_refs (dicts s a) = []"
    unfolding missing_refs_Nil_iff by blast
  with h show "fst (validate_flow flow s) = Return ()"
    by (simp add: validate_flow_def get_flow_def Let_def)
next
  fix a
  let ?bad = "[(StepInfo.name st, r).
                st \<leftarrow> map snd (dicts s a), r \<leftarrow> after st, r \<notin> set (map fst (dicts s a))]"
  assume h: "map_of (registry_steps s) flow = Some a \<and>
        \<not> (\<forall>st \<in> set (map snd (dicts s a)). \<forall>r \<in> set (after st). r \<in> set (map fst (dicts s a)))"
  then have ne: "missing_refs (dicts s a) \<noteq> []"
    unfolding missing_refs_Nil_iff by blast
  then have ne': "map (\<lambda>m. ''  - '' @ m) (missing_refs (dicts s a)) \<noteq> []"
    by simp
  have "newline @ join newline (map (\<lambda>m. ''  - '' @ m) (missing_refs (dicts s a))) =
        concat (map (\<lambda>(x, y). newline @ ''  - Step '' @ quoted x @
                                  '' references unknown step '' @ quoted y) ?bad)"
    unfolding join_prefix_sep [OF ne']
    by (simp add: missing_refs_eq comp_def case_prod_unfold missing_line_def del: set_map)
  with h ne show "fst (validate_flow flow s) =
        Raise (ValueError
          (''Flow '' @ quoted flow @ '' has invalid references:'' @
           concat (map (\<lambda>(x, y). newline @ ''  - Step '' @ quoted x @
                                  '' references unknown step '' @ quoted y) ?bad)))"
    by (simp add: validate_flow_def get_flow_def Let_def invalid_message_def)
qed

theorem C3_validate_flow_witness:
  "map_of (registry_steps order_state) ''nope'' = None \<and>
   fst (validate_flow ''nope'' order_state) =
     Raise (KeyError (''Flow '' @ quoted ''nope'' @ '' not found'')) \<and>
   map_of (registry_steps order_state) ''order'' = Some 0 \<and>
   fst (validate_flow ''order'' order_state) = Return () \<and>
   map_of (registry_steps order_state) ''g'' = Some 2 \<and>
   fst (validate_flow ''g'' order_state) =
     Raise (ValueError
       (''Flow '' @ quoted ''g'' @ '' has invalid references:'' @
        newline @ ''  - Step '' @ quoted ''x'' @ '' references unknown step '' @ quoted ''m1'' @
        newline @ ''  - Step '' @ quoted ''x'' @ '' references unknown step '' @ quoted ''m2'' @
        newline @ ''  - Step '' @ quoted ''y'' @ '' references unknown step '' @ quoted ''m3''))"
proof -
  note ev = order_state_eval
  have r: "map_of (registry_steps order_state) ''nope'' = None"
    "map_of (registry_steps order_state) ''order'' = Some 0"
    "map_of (registry_steps order_state) ''g'' = Some 2"
    by (simp_all add: ev)
  have ok: "\<forall>st \<in> set (map snd (dicts order_state 0)).
              \<forall>r \<in> set (after st). r \<in> set (map fst (dicts order_state 0))"
    by (simp add: ev example_defs)
  have bad: "\<not> (\<forall>st \<in> set (map snd (dicts order_state 2)).
              \<forall>r \<in> set (after st). r \<in> set (map fst (dicts order_state 2)))"
    by (simp add: ev example_defs)
  have l: "[(StepInfo.name st, r). st \<leftarrow> map snd (dicts order_state 2), r \<leftarrow> after st,
             r \<notin> set (map fst (dicts order_state 2))] =
           [(''x'', ''m1''), (''x'', ''m2''), (''y'', ''m3'')]"
    by (simp add: ev example_defs)
  note k = C3_validate_flow [of order_state "''nope''", THEN conjunct1, rule_format, OF r(1)]
  note v = C3_validate_flow [of order_state "''order''", THEN conjunct2, THEN conjunct1,
      rule_format, OF conjI [OF r(2) ok]]
  note b = C3_validate_flow [of order_state "''g''", THEN conjunct2, THEN conjunct2,
      rule_format, OF conjI [OF r(3) bad], unfolded l]
  have b': "fst (validate_flow ''g'' order_state) =
     Raise (ValueError
       (''Flow '' @ quoted ''g'' @ '' has invalid references:'' @
        newline @ ''  - Step '' @ quoted ''x'' @ '' references unknown step '' @ quoted ''m1'' @
        newline @ ''  - Step '' @ quoted ''x'' @ '' references unknown step '' @ quoted ''m2'' @
        newline @ ''  - Step '' @ quoted ''y'' @ '' references unknown step '' @ quoted ''m3''))"
    unfolding b by simp
  show ?thesis
    by (intro conjI r k v b')
qed

text \<open>
  C4. For a registered flow and the format \<open>mermaid\<close>, \<open>generate_dag\<close> returns the line
  \<^verbatim>\<open>graph TD\<close> followed by one line \<^verbatim>\<open>    predecessor --> step\<close> for each pair taken from
  the steps' \<open>after\<close> lists, in sorted order of the pairs, every line ended by a newline:
  whatever sorted list \<open>es\<close> is a rearrangement of those pairs, the text is the one
  built from \<open>es\<close>. When no step has a predecessor, the lines after the header are the
  step names in sorted order, indented. Two registries that satisfy the invariant and in
  which the flow has the same entries, in whatever order they were registered, give the
  same text.
\<close>

theorem C4_generate_dag:
  assumes "map_of (registry_steps s) flow = Some a"
  shows
    "(\<forall>es. es \<noteq> [] \<and> sorted es \<and>
          mset es = mset [(p, StepInfo.name st). st \<leftarrow> map snd (dicts s a), p \<leftarrow> after st] \<longrightarrow>
        fst (generate_dag repr flow ''mermaid'' None s) =
          Return (Some (concat (map (\<lambda>l. l @ newline)
            (''graph TD'' # map (\<lambda>(p, n). ''    '' @ p @ '' --> '' @ n) es))))) \<and>
     (\<forall>ns. (\<forall>st \<in> set (map snd (dicts s a)). after st = []) \<and> sorted ns \<and>
          mset ns = mset (map fst (dicts s a)) \<longrightarrow>
        fst (generate_dag repr flow ''mermaid'' None s) =
          Return (Some (concat (map (\<lambda>l. l @ newline)
            (''graph TD'' # map (\<lambda>n. ''    '' @ n) ns))))) \<and>
     (\<forall>s' a'. reg_inv s \<and> reg_inv s' \<and> map_of (registry_steps s') flow = Some a' \<and>
          map_of (dicts s' a') = map_of (dicts s a) \<longrightarrow>
        fst (generate_dag repr flow ''mermaid'' None s') =
        fst (generate_dag repr flow ''mermaid'' None s)) \<and>
     (reg_inv s \<longrightarrow>
        fst (generate_dag repr flow ''mermaid'' None
              (snd (generate_dag repr flow ''mermaid'' None s))) =
        fst (generate_dag repr flow ''mermaid'' None s))"
proof (intro conjI allI impI)
  fix es :: "(string \<times> string) list"
  let ?edges = "[(p, StepInfo.name st). st \<leftarrow> map snd (dicts s a), p \<leftarrow> after st]"
  assume h: "es \<noteq> [] \<and> sorted es \<and> mset es = mset ?edges"
  then have "sort ?edges = es"
    by (simp add: sorted_perm_is_sort)
  with h show "fst (generate_dag repr flow ''mermaid'' None s) =
          Return (Some (concat (map (\<lambda>l. l @ newline)
            (''graph TD'' # map (\<lambda>(p, n). ''    '' @ p @ '' --> '' @ n) es))))"
    unfolding generate_dag_registered [OF assms]
    by (simp add: edge_line_eq del: set_map)
next
  fix ns :: "string list"
  let ?edges = "[(p, StepInfo.name st). st \<leftarrow> map snd (dicts s a), p \<leftarrow> after st]"
  assume h: "(\<forall>st \<in> set (map snd (dicts s a)). after st = []) \<and> sorted ns \<and>
          mset ns = mset (map fst (dicts s a))"
  then have "?edges = []"
    by auto
  then have e0: "sort ?edges = []"
    by (simp only: sort_key_simps)
  from h have n0: "sort (map fst (dicts s a)) = ns"
    by (simp add: sorted_perm_is_sort)
  show "fst (generate_dag repr flow ''mermaid'' None s) =
          Return (Some (concat (map (\<lambda>l. l @ newline)
            (''graph TD'' # map (\<lambda>n. ''    '' @ n) ns))))"
    unfolding generate_dag_registered [OF assms] Let_def e0 n0
    by (simp add: node_line_eq)
next
  fix s' a'
  assume h: "reg_inv s \<and> reg_inv s' \<and> map_of (registry_steps s') flow = Some a' \<and>
          map_of (dicts s' a') = map_of (dicts s a)"
  have d1: "distinct (map fst (dicts s a))"
    using h assms by (auto simp: reg_inv_def dest!: map_of_SomeD)
  have d2: "distinct (map fst (dicts s' a'))"
    using h by (auto simp: reg_inv_def dest!: map_of_SomeD)
  from h have mo: "map_of (dicts s' a') = map_of (dicts s a)"
    by simp
  have m: "mset (dicts s' a') = mset (dicts s a)"
    by (rule dict_mset_eq [OF d1 d2 mo])
  then have v: "mset (map snd (dicts s' a')) = mset (map snd (dicts s a))"
    and k: "mset (map fst (dicts s' a')) = mset (map fst (dicts s a))"
    by simp_all
  have e: "sort [(p, StepInfo.name st). st \<leftarrow> map snd (dicts s' a'), p \<leftarrow> after st] =
           sort [(p, StepInfo.name st). st \<leftarrow> map snd (dicts s a), p \<leftarrow> after st]"
    by (rule sort_cong_mset, rule mset_concat_map_cong, rule v)
  have n: "sort (map fst (dicts s' a')) = sort (map fst (dicts s a))"
    by (rule sort_cong_mset, rule k)
  from h have r: "map_of (registry_steps s') flow = Some a'"
    by simp
  show "fst (generate_dag repr flow ''mermaid'' None s') =
        fst (generate_dag repr flow ''mermaid'' None s)"
    unfolding generate_dag_registered [OF assms] generate_dag_registered [OF r] e n ..
next
  assume "reg_inv s"
  then show "fst (generate_dag repr flow ''mermaid'' None
              (snd (generate_dag repr flow ''mermaid'' None s))) =
        fst (generate_dag repr flow ''mermaid'' None s)"
    by (rule generate_dag_twice)
qed

theorem C4_generate_dag_witness:
  "map_of (registry_steps order_state) ''order'' = Some 0 \<and>
   fst (generate_dag quoted ''order'' ''mermaid'' None order_state) =
     Return (Some (''graph TD'' @ newline @ ''    a --> b'' @ newline)) \<and>
   map_of (registry_steps order_state) ''g'' = Some 2 \<and>
   fst (generate_dag quoted ''g'' ''mermaid'' None order_state) =
     Return (Some (''graph TD'' @ newline @ ''    m1 --> x'' @ newline @ ''    m2 --> x'' @ newline @
                   ''    m3 --> y'' @ newline @ ''    y --> x'' @ newline)) \<and>
   map_of (registry_steps order_state) ''solo'' = Some (Suc 0) \<and>
   fst (generate_dag quoted ''solo'' ''mermaid'' None order_state) =
     Return (Some (''graph TD'' @ newline @ ''    y'' @ newline @ ''    z'' @ newline)) \<and>
   reg_inv order_state \<and> reg_inv order_state_rev \<and>
   map_of (registry_steps order_state_rev) ''g'' = Some 0 \<and>
   map_of (dicts order_state_rev 0) = map_of (dicts order_state 2) \<and>
   fst (generate_dag quoted ''g'' ''mermaid'' None order_state_rev) =
   fst (generate_dag quoted ''g'' ''mermaid'' None order_state) \<and>
   fst (generate_dag quoted ''order'' ''mermaid'' None
         (snd (generate_dag quoted ''order'' ''mermaid'' None order_state))) =
   fst (generate_dag quoted ''order'' ''mermaid'' None order_state)"
proof -
  note ev = order_state_eval order_state_rev_eval
  have r0: "map_of (registry_steps order_state) ''order'' = Some 0"
    and r1: "map_of (registry_steps order_state) ''solo'' = Some (Suc 0)"
    and r2: "map_of (registry_steps order_state) ''g'' = Some 2"
    and r3: "map_of (registry_steps order_state_rev) ''g'' = Some 0"
    by (simp_all add: ev)
  have m: "map_of (dicts order_state_rev 0) = map_of (dicts order_state 2)"
    by (auto simp: ev fun_eq_iff)
  have e0: "[(''a'', ''b'')] \<noteq> [] \<and> sorted [(''a'', ''b'')] \<and>
      mset [(''a'', ''b'')] =
      mset [(p, StepInfo.name st). st \<leftarrow> map snd (dicts order_state 0), p \<leftarrow> after st]"
    by (simp add: ev example_defs)
  have e2: "[(''m1'', ''x''), (''m2'', ''x''), (''m3'', ''y''), (''y'', ''x'')] \<noteq> [] \<and>
      sorted [(''m1'', ''x''), (''m2'', ''x''), (''m3'', ''y''), (''y'', ''x'')] \<and>
      mset [(''m1'', ''x''), (''m2'', ''x''), (''m3'', ''y''), (''y'', ''x'')] =
      mset [(p, StepInfo.name st). st \<leftarrow> map snd (dicts order_state 2), p \<leftarrow> after st]"
    by (simp add: ev example_defs less_eq_prod_def less_prod_def)
  have e1: "(\<forall>st \<in> set (map snd (dicts order_state (Suc 0))). after st = []) \<and>
      sorted [''y'', ''z''] \<and> mset [''y'', ''z''] = mset (map fst (dicts order_state (Suc 0)))"
    by (simp add: ev example_defs)
  have e3: "reg_inv order_state \<and> reg_inv order_state_rev \<and>
      map_of (registry_steps order_state_rev) ''g'' = Some 0 \<and>
      map_of (dicts order_state_rev 0) = map_of (dicts order_state 2)"
    using order_state_inv r3 m by simp
  note c0 = C4_generate_dag [OF r0, of quoted, THEN conjunct1, rule_format, OF e0]
  note c2 = C4_generate_dag [OF r2, of quoted, THEN conjunct1, rule_format, OF e2]
  note c1 = C4_generate_dag [OF r1, of quoted, THEN conjunct2, THEN conjunct1, rule_format, OF e1]
  note c3 = C4_generate_dag [OF r2, of quoted, THEN conjunct2, THEN conjunct2, THEN conjunct1,
      rule_format, OF e3]
  note c4 = C4_generate_dag [OF r0, of quoted, THEN conjunct2, THEN conjunct2, THEN conjunct2,
      rule_format, OF order_state_inv(1)]
  have o0: "fst (generate_dag quoted ''order'' ''mermaid'' None order_state) =
     Return (Some (''graph TD'' @ newline @ ''    a --> b'' @ newline))"
    unfolding c0 by simp
  have o2: "fst (generate_dag quoted ''g'' ''mermaid'' None order_state) =
     Return (Some (''graph TD'' @ newline @ ''    m1 --> x'' @ newline @ ''    m2 --> x'' @ newline @
                   ''    m3 --> y'' @ newline @ ''    y --> x'' @ newline))"
    unfolding c2 by simp
  have o1: "fst (generate_dag quoted ''solo'' ''mermaid'' None order_state) =
     Return (Some (''graph TD'' @ newline @ ''    y'' @ newline @ ''    z'' @ newline))"
    unfolding c1 by simp
  show ?thesis
    by (intro conjI r0 r1 r2 r3 m o0 o1 o2 c3 c4 order_state_inv)
qed

text \<open>
  C5. In a flow that holds exactly the steps \<open>a\<close> (after \<open>b\<close>) and \<open>b\<close> (after \<open>a\<close>),
  both registrations succeed and \<open>validate_flow\<close> returns normally: the cycle is not
  rejected.
\<close>

theorem C5_validate_flow_accepts_cycle:
  "fst (register step_a init_state) = Return () \<and>
   fst (register step_b (snd (register step_a init_state))) = Return () \<and>
   fst (validate_flow ''f'' cyclic_state) = Return ()"
  by (simp add: cyclic_state_def validate_flow_def get_flow_def missing_refs_def
      register_def setdefault_flow_def init_state_def step_a_def step_b_def Let_def)

text \<open>
  C9. For every flow name, registered or not, every output argument and every format
  other than \<open>mermaid\<close>, \<open>generate_dag\<close> raises \<open>ValueError\<close> (unsupported format) and
  leaves the state as it was: no snapshot has been taken from the registry. For the format
  \<open>mermaid\<close> and a flow name that was never registered it raises the \<open>KeyError\<close> that
  \<open>get_flow\<close> raises.
\<close>

theorem C9_generate_dag_errors:
  "(format \<noteq> ''mermaid'' \<longrightarrow>
      generate_dag repr flow format out s =
        (Raise (ValueError (''Unsupported format: '' @ repr format)), s)) \<and>
   (map_of (registry_steps s) flow = None \<longrightarrow>
      generate_dag repr flow ''mermaid'' out s =
        (Raise (KeyError (''Flow '' @ quoted flow @ '' not found'')), s) \<and>
      get_flow flow s = (Raise (KeyError (''Flow '' @ quoted flow @ '' not found'')), s))"
  by (simp add: generate_dag_def get_flow_def not_found_message_def)

theorem C9_generate_dag_errors_witness:
  "''dot'' \<noteq> ''mermaid'' \<and>
   generate_dag quoted ''order'' ''dot'' None order_state =
     (Raise (ValueError (''Unsupported format: '' @ quoted ''dot'')), order_state) \<and>
   generate_dag quoted ''nope'' ''dot'' (Some ''out.mmd'') order_state =
     (Raise (ValueError (''Unsupported format: '' @ quoted ''dot'')), order_state) \<and>
   map_of (registry_steps order_state) ''nope'' = None \<and>
   generate_dag quoted ''nope'' ''mermaid'' None order_state =
     (Raise (KeyError (''Flow '' @ quoted ''nope'' @ '' not found'')), order_state)"
proof -
  have r: "map_of (registry_steps order_state) ''nope'' = None"
    by (simp add: order_state_eval)
  show ?thesis
    using C9_generate_dag_errors [of "''dot''" quoted "''order''" None order_state]
      C9_generate_dag_errors [of "''dot''" quoted "''nope''" "Some ''out.mmd''" order_state]
      C9_generate_dag_errors [of "''mermaid''" quoted "''nope''" None order_state] r
    by simp
qed

section \<open>Claims about the flow context and the wrappers\<close>

text \<open>
  C6. Let the store be well formed, the parent's metadata dictionary allocated and its
  correlation id not empty (what \<^verbatim>\<open>__init__\<close> establishes). With fuel for as many nested
  containers as the store holds, \<open>fork\<close> returns a child with the parent's correlation
  id and a metadata dictionary of its own. The containers the child reaches are the
  images of those the parent reaches under a one-to-one renaming, each with the items of
  its original, references renamed: a deep copy. The fork changes no container that
  existed before. No container is reached from both sides; so whatever is written to
  containers on the parent's side (setting or deleting a key, changing a value in place)
  leaves every container on the child's side as it was, and the other way round. In
  particular \<open>set_value\<close> and \<open>delete_value\<close> on one context leave the other's dictionary
  untouched.
\<close>

theorem C6_fork_isolation:
  assumes wf: "heap_wf s" and md: "metadata_dict parent < next_obj s"
    and cid: "correlation_id parent \<noteq> []" and fuel: "next_obj s \<le> fuel"
  shows "\<exists>child s' f.
     fork fuel parent s = Some (child, s') \<and>
     correlation_id child = correlation_id parent \<and>
     metadata_dict child \<noteq> metadata_dict parent \<and>
     f (metadata_dict parent) = metadata_dict child \<and>
     inj_on f (reach (objs s) (metadata_dict parent)) \<and>
     (\<forall>a \<in> reach (objs s) (metadata_dict parent). objs s' (f a) = map_obj (rename f) (objs s a)) \<and>
     (\<forall>a < next_obj s. objs s' a = objs s a) \<and>
     reach (objs s') (metadata_dict child) \<inter> reach (objs s') (metadata_dict parent) = {} \<and>
     (\<forall>h. (\<forall>b. b \<notin> reach (objs s') (metadata_dict parent) \<longrightarrow> h b = objs s' b) \<longrightarrow>
          reach h (metadata_dict child) = reach (objs s') (metadata_dict child) \<and>
          (\<forall>b \<in> reach (objs s') (metadata_dict child). h b = objs s' b)) \<and>
     (\<forall>h. (\<forall>b. b \<notin> reach (objs s') (metadata_dict child) \<longrightarrow> h b = objs s' b) \<longrightarrow>
          reach h (metadata_dict parent) = reach (objs s') (metadata_dict parent) \<and>
          (\<forall>b \<in> reach (objs s') (metadata_dict parent). h b = objs s' b)) \<and>
     (\<forall>k v. objs (set_value parent k v s') (metadata_dict child) = objs s' (metadata_dict child) \<and>
            objs (set_value child k v s') (metadata_dict parent) = objs s' (metadata_dict parent)) \<and>
     (\<forall>k. objs (snd (delete_value parent k s')) (metadata_dict child) =
            objs s' (metadata_dict child) \<and>
          objs (snd (delete_value child k s')) (metadata_dict parent) =
            objs s' (metadata_dict parent))"
proof -
  let ?n0 = "next_obj s"
  let ?m = "metadata_dict parent"
  have c0: "copying ?n0 Map.empty s"
    by (rule copying_start [OF wf])
  have vr: "val_refs (VRef ?m) \<subseteq> {..< ?n0}"
    using md by simp
  have "deepcopy fuel (VRef ?m) Map.empty s \<noteq> None"
    using fuel by (intro deepcopy_total [OF c0 vr]) simp
  then obtain v' memo' s' where run: "deepcopy fuel (VRef ?m) Map.empty s = Some (v', memo', s')"
    by auto
  from deepcopy_inv [OF run c0 vr]
  have c: "copying ?n0 memo' s'" and frame: "\<forall>b < ?n0. objs s' b = objs s b"
    and v'new: "val_refs v' \<subseteq> {?n0 ..< next_obj s'}"
    by simp_all
  have dist: "\<forall>a < ?n0. distinct (map fst (dict_items (objs s a)))"
    using wf by (simp add: heap_wf_def)
  from deepcopy_iso(1) [OF dist run c0 vr _ memo_inj_empty]
  have v': "v' = rename (memo_fun memo') (VRef ?m)" and mdom: "?m \<in> dom memo'"
    and inj: "memo_inj memo'"
    and cop: "\<forall>a. memo' a \<noteq> None \<longrightarrow> copied (objs s) memo' s' a"
    by simp_all
  let ?f = "memo_fun memo'"
  let ?y = "?f ?m"
  let ?child = "\<lparr>correlation_id = correlation_id parent, metadata_dict = ?y\<rparr>"
  have fk: "fork fuel parent s = Some (?child, s')"
    using run v' cid by (simp add: fork_def FlowContext_init_def)
  have ynew: "?n0 \<le> ?y" "?y < next_obj s'"
    using v' v'new by simp_all
  have ne: "?y \<noteq> ?m"
    using ynew(1) md by simp
  have closed: "\<forall>b \<in> dom memo'. obj_refs (objs s b) \<subseteq> dom memo'"
    using cop by (auto simp: copied_def)
  have rdom: "reach (objs s) ?m \<subseteq> dom memo'"
    by (rule reach_closed [OF mdom closed])
  have injf: "inj_on ?f (reach (objs s) ?m)"
  proof (rule inj_onI)
    fix a b assume "a \<in> reach (objs s) ?m" "b \<in> reach (objs s) ?m" "?f a = ?f b"
    with rdom inj show "a = b"
      unfolding memo_inj_def memo_fun_def by (fastforce simp: dom_def)
  qed
  have img: "\<forall>a \<in> reach (objs s) ?m. objs s' (?f a) = map_obj (rename ?f) (objs s a)"
    using rdom cop by (auto simp: copied_def)
  have old_closed: "\<forall>b \<in> {..< ?n0}. obj_refs (objs s' b) \<subseteq> {..< ?n0}"
    using copyingD(2) [OF c] by simp
  have new_closed: "\<forall>b \<in> {?n0 ..< next_obj s'}. obj_refs (objs s' b) \<subseteq> {?n0 ..< next_obj s'}"
    using copyingD(4) [OF c] by simp
  have rp: "reach (objs s') ?m \<subseteq> {..< ?n0}"
    using md by (intro reach_closed [OF _ old_closed]) simp
  have rc: "reach (objs s') ?y \<subseteq> {?n0 ..< next_obj s'}"
    using ynew by (intro reach_closed [OF _ new_closed]) simp
  have disj: "reach (objs s') ?y \<inter> reach (objs s') ?m = {}"
    using rp rc by fastforce
  then have disj': "reach (objs s') ?m \<inter> reach (objs s') ?y = {}"
    by blast
  have iso1: "\<forall>h. (\<forall>b. b \<notin> reach (objs s') ?m \<longrightarrow> h b = objs s' b) \<longrightarrow>
          reach h ?y = reach (objs s') ?y \<and> (\<forall>b \<in> reach (objs s') ?y. h b = objs s' b)"
    using isolated_from [OF disj] by blast
  have iso2: "\<forall>h. (\<forall>b. b \<notin> reach (objs s') ?y \<longrightarrow> h b = objs s' b) \<longrightarrow>
          reach h ?m = reach (objs s') ?m \<and> (\<forall>b \<in> reach (objs s') ?m. h b = objs s' b)"
    using isolated_from [OF disj'] by blast
  have sel: "metadata_dict ?child = ?y" "correlation_id ?child = correlation_id parent"
    by simp_all
  have setv: "\<forall>k v. objs (set_value parent k v s') ?y = objs s' ?y \<and>
            objs (set_value ?child k v s') ?m = objs s' ?m"
    using ne by (simp add: set_value_def)
  have delv: "\<forall>k. objs (snd (delete_value parent k s')) ?y = objs s' ?y \<and>
          objs (snd (delete_value ?child k s')) ?m = objs s' ?m"
    using ne by (simp add: delete_value_def split: option.splits)
  show ?thesis
    apply (rule exI [of _ ?child])
    apply (rule exI [of _ s'])
    apply (rule exI [of _ ?f])
    unfolding sel
    apply (intro conjI)
    apply (rule fk)
    apply (rule refl)
    apply (rule ne)
    apply (rule refl)
    apply (rule injf)
    apply (rule img)
    apply (rule frame)
    apply (rule disj)
    apply (rule iso1)
    apply (rule iso2)
    apply (rule setv)
    apply (rule delv)
    done
qed

theorem C6_fork_isolation_witness:
  "heap_wf fork_state \<and> metadata_dict fork_parent < next_obj fork_state \<and>
   correlation_id fork_parent \<noteq> [] \<and> next_obj fork_state \<le> 2 \<and>
   (\<exists>child s'.
      fork 2 fork_parent fork_state = Some (child, s') \<and>
      correlation_id child = ''cid'' \<and> metadata_dict child = 2 \<and>
      objs s' 2 = ODict [(''user'', VStr ''ann''), (''tags'', VRef 3)] \<and>
      objs s' 3 = OList [VInt 1, VRef 2] \<and>
      reach (objs s') 2 \<inter> reach (objs s') 0 = {} \<and>
      reach (objs (set_value fork_parent ''tags'' VNone s')) 2 = reach (objs s') 2 \<and>
      reach (objs (set_value child ''tags'' VNone s')) 0 = reach (objs s') 0 \<and>
      get_value fork_parent ''user'' VNone (set_value child ''user'' (VStr ''bob'') s') = VStr ''ann'' \<and>
      get_value child ''user'' VNone (set_value child ''user'' (VStr ''bob'') s') = VStr ''bob'' \<and>
      get_value child ''user'' VNone (snd (delete_value fork_parent ''user'' s')) = VStr ''ann'')"
proof -
  have wf: "heap_wf fork_state"
    by (rule fork_state_wf)
  have md: "metadata_dict fork_parent < next_obj fork_state"
    by (simp add: fork_parent_def fork_state_def)
  have cid: "correlation_id fork_parent \<noteq> []"
    by (simp add: fork_parent_def)
  have fuel: "next_obj fork_state \<le> 2"
    by (simp add: fork_state_def)
  let ?c = "\<lparr>correlation_id = ''cid'', metadata_dict = 2\<rparr>"
  from fork_example obtain s0 where
    ev: "fork 2 fork_parent fork_state = Some (?c, s0)"
    and o: "objs s0 0 = ODict [(''user'', VStr ''ann''), (''tags'', VRef 1)]"
      "objs s0 2 = ODict [(''user'', VStr ''ann''), (''tags'', VRef 3)]"
      "objs s0 3 = OList [VInt 1, VRef 2]"
    by blast
  from C6_fork_isolation [OF wf md cid fuel] obtain child s' where
    th: "fork 2 fork_parent fork_state = Some (child, s')"
      "reach (objs s') (metadata_dict child) \<inter> reach (objs s') (metadata_dict fork_parent) = {}"
      "\<forall>h. (\<forall>b. b \<notin> reach (objs s') (metadata_dict fork_parent) \<longrightarrow> h b = objs s' b) \<longrightarrow>
          reach h (metadata_dict child) = reach (objs s') (metadata_dict child) \<and>
          (\<forall>b \<in> reach (objs s') (metadata_dict child). h b = objs s' b)"
      "\<forall>h. (\<forall>b. b \<notin> reach (objs s') (metadata_dict child) \<longrightarrow> h b = objs s' b) \<longrightarrow>
          reach h (metadata_dict fork_parent) = reach (objs s') (metadata_dict fork_parent) \<and>
          (\<forall>b \<in> reach (objs s') (metadata_dict fork_parent). h b = objs s' b)"
    by (elim exE conjE) (rule that)
  from th(1) ev have eq: "child = ?c" "s' = s0"
    by simp_all
  have p0: "metadata_dict fork_parent = 0"
    by (simp add: fork_parent_def)
  note th' = th [unfolded eq p0, simplified]
  have disj: "reach (objs s0) 2 \<inter> reach (objs s0) 0 = {}"
    by (rule th'(2))
  have w1: "\<forall>b. b \<notin> reach (objs s0) 0 \<longrightarrow> objs (set_value fork_parent ''tags'' VNone s0) b = objs s0 b"
  proof (intro allI impI)
    fix b assume "b \<notin> reach (objs s0) 0"
    then have "b \<noteq> 0"
      using reach.root [of 0 "objs s0"] by metis
    then show "objs (set_value fork_parent ''tags'' VNone s0) b = objs s0 b"
      by (simp add: set_value_def p0)
  qed
  have w2: "\<forall>b. b \<notin> reach (objs s0) 2 \<longrightarrow> objs (set_value ?c ''tags'' VNone s0) b = objs s0 b"
  proof (intro allI impI)
    fix b assume "b \<notin> reach (objs s0) 2"
    then have "b \<noteq> 2"
      using reach.root [of 2 "objs s0"] by metis
    then show "objs (set_value ?c ''tags'' VNone s0) b = objs s0 b"
      by (simp add: set_value_def)
  qed
  note r1 = th'(3) [THEN spec, THEN mp, OF w1, THEN conjunct1]
  note r2 = th'(4) [THEN spec, THEN mp, OF w2, THEN conjunct1]
  have g: "get_value fork_parent ''user'' VNone (set_value ?c ''user'' (VStr ''bob'') s0) = VStr ''ann''"
    "get_value ?c ''user'' VNone (set_value ?c ''user'' (VStr ''bob'') s0) = VStr ''bob''"
    "get_value ?c ''user'' VNone (snd (delete_value fork_parent ''user'' s0)) = VStr ''ann''"
    by (simp_all add: get_value_def set_value_def delete_value_def fork_parent_def o)
  have sel: "correlation_id ?c = ''cid''" "metadata_dict ?c = 2"
    by simp_all
  have ex: "\<exists>child s'.
      fork 2 fork_parent fork_state = Some (child, s') \<and>
      correlation_id child = ''cid'' \<and> metadata_dict child = 2 \<and>
      objs s' 2 = ODict [(''user'', VStr ''ann''), (''tags'', VRef 3)] \<and>
      objs s' 3 = OList [VInt 1, VRef 2] \<and>
      reach (objs s') 2 \<inter> reach (objs s') 0 = {} \<and>
      reach (objs (set_value fork_parent ''tags'' VNone s')) 2 = reach (objs s') 2 \<and>
      reach (objs (set_value child ''tags'' VNone s')) 0 = reach (objs s') 0 \<and>
      get_value fork_parent ''user'' VNone (set_value child ''user'' (VStr ''bob'') s') = VStr ''ann'' \<and>
      get_value child ''user'' VNone (set_value child ''user'' (VStr ''bob'') s') = VStr ''bob'' \<and>
      get_value child ''user'' VNone (snd (delete_value fork_parent ''user'' s')) = VStr ''ann''"
    apply (rule exI [of _ ?c])
    apply (rule exI [of _ s0])
    apply (intro conjI ev sel o disj r1 r2 g)
    done
  show ?thesis
    by (intro conjI wf md cid fuel ex)
qed

text \<open>
  C7. Let the configuration be consistent. Whatever the wrapped function does, return
  or raise, and whatever the backend's span does on entry and exit, the current context
  is \<^verbatim>\<open>None\<close> once a call of an entrypoint wrapper is over.
\<close>

theorem C7_entrypoint_teardown:
  assumes "config_ok s"
  shows "get_flow_context (snd (entrypoint_wrapper ext w fn s)) = None"
  using entrypoint_wrapper_resets [OF assms] by (simp add: get_flow_context_def)

theorem C7_entrypoint_teardown_witness:
  "config_ok demo_state \<and>
   fst (entrypoint_wrapper demo_ext demo_wrapped fn_probe demo_state) = Return (VStr ''a'') \<and>
   get_flow_context (snd (entrypoint_wrapper demo_ext demo_wrapped fn_probe demo_state)) = None \<and>
   fst (entrypoint_wrapper demo_ext demo_wrapped fn_fail demo_state) = Raise (Exception ''boom'') \<and>
   get_flow_context (snd (entrypoint_wrapper demo_ext demo_wrapped fn_fail demo_state)) = None"
proof -
  have c: "config_ok demo_state"
    by (simp add: config_ok_def demo_state_def)
  have r1: "fst (entrypoint_wrapper demo_ext demo_wrapped fn_probe demo_state) = Return (VStr ''a'')"
    by (simp add: wrapper_defs demo_defs Let_def)
  have r2: "fst (entrypoint_wrapper demo_ext demo_wrapped fn_fail demo_state) = Raise (Exception ''boom'')"
    by (simp add: wrapper_defs demo_defs Let_def)
  show ?thesis
    by (intro conjI c r1 r2 C7_entrypoint_teardown [OF c])
qed

text \<open>
  C8. A call of a step wrapper with no current flow context raises \<open>RuntimeError\<close> with
  a message naming the step, and the state after it is the state before it, for every
  wrapped function and backend: the function was not run, nothing was logged, no context
  was installed.
\<close>

theorem C8_step_outside_flow:
  assumes "get_flow_context s = None"
  shows "step_wrapper ext w fn s =
           (Raise (RuntimeError
              (''@step '' @ quoted (step_name w) @
               '' called outside of a flow context. Ensure an @entrypoint has been called first.'')),
            s)"
  using assms by (simp add: step_wrapper_def outside_flow_message_def)

theorem C8_step_outside_flow_witness:
  "get_flow_context demo_state = None \<and>
   step_wrapper demo_ext demo_wrapped fn_probe demo_state =
     (Raise (RuntimeError
        (''@step '' @ quoted ''start'' @
         '' called outside of a flow context. Ensure an @entrypoint has been called first.'')),
      demo_state) \<and>
   get_flow_context outer_state \<noteq> None \<and>
   fst (step_wrapper demo_ext demo_wrapped fn_probe outer_state) = Return (VStr ''outer'')"
proof -
  have n: "get_flow_context demo_state = None"
    by (simp add: get_flow_context_def demo_state_def)
  have s: "step_name demo_wrapped = ''start''"
    by (simp add: demo_wrapped_def)
  have o: "get_flow_context outer_state \<noteq> None"
    by (simp add: get_flow_context_def outer_state_def)
  have r: "fst (step_wrapper demo_ext demo_wrapped fn_probe outer_state) = Return (VStr ''outer'')"
    by (simp add: wrapper_defs demo_defs Let_def)
  show ?thesis
    by (intro conjI n o r C8_step_outside_flow [OF n, of demo_ext demo_wrapped fn_probe, unfolded s])
qed

text \<open>
  C10. Let an entrypoint wrapper be called while a context \<open>outer\<close> is current, the
  configuration being consistent. After the call the current context is \<^verbatim>\<open>None\<close>, not
  \<open>outer\<close>. With the logging backend in use, the wrapped function runs in a state whose
  current context is a new one: its correlation id is the next value of
  \<^verbatim>\<open>uuid.uuid4().hex\<close> and its metadata a new empty dictionary, whatever \<open>outer\<close> was.
\<close>

theorem C10_nested_entrypoint:
  assumes "get_flow_context s = Some outer" and "config_ok s"
  shows
    "get_flow_context (snd (entrypoint_wrapper ext w fn s)) = None \<and>
     get_flow_context (snd (entrypoint_wrapper ext w fn s)) \<noteq> Some outer \<and>
     (fst (get_backend s) = Return LoggingBackend \<longrightarrow>
        (\<exists>s_in.
           get_flow_context s_in =
             Some \<lparr>correlation_id = uuid_stream s (uuid_used s), metadata_dict = next_obj s\<rparr> \<and>
           current_flow_id s_in = Some (uuid_stream s (uuid_used s)) \<and>
           objs s_in (next_obj s) = ODict [] \<and>
           fst (entrypoint_wrapper ext w fn s) = fst (fn s_in)))"
proof (intro conjI impI)
  show none: "get_flow_context (snd (entrypoint_wrapper ext w fn s)) = None"
    using entrypoint_wrapper_resets [OF assms(2)] by (simp add: get_flow_context_def)
  then show "get_flow_context (snd (entrypoint_wrapper ext w fn s)) \<noteq> Some outer"
    by simp
next
  assume lb: "fst (get_backend s) = Return LoggingBackend"
  let ?id = "uuid_stream s (uuid_used s)"
  let ?ctx = "\<lparr>correlation_id = ?id, metadata_dict = next_obj s\<rparr>"
  let ?s1 = "s\<lparr>uuid_used := Suc (uuid_used s), objs := (objs s)(next_obj s := ODict []),
      next_obj := Suc (next_obj s)\<rparr>"
  have pre: "FlowContext_init None None s = (?ctx, ?s1)"
    by (simp add: FlowContext_init_def uuid4_hex_def new_dict_def)
  have "fst (get_backend (set_context ?ctx ?s1)) = fst (get_backend s)"
    by (rule get_backend_frame [THEN conjunct1]) (simp_all add: set_context_def)
  with lb obtain s3 where gb: "get_backend (set_context ?ctx ?s1) = (Return LoggingBackend, s3)"
    by (cases "get_backend (set_context ?ctx ?s1)") simp
  have s3: "flow_context_var s3 = Some ?ctx" "objs s3 (next_obj s) = ODict []"
    using get_backend_frame [of "set_context ?ctx ?s1" "set_context ?ctx ?s1"] gb
    by (simp_all add: set_context_def)
  let ?s_in = "s3\<lparr>log_records := log_records s3 @
      [StepStart (resolve_flow_name w) (step_name w) ?id]\<rparr>"
  have enter: "span_enter ext LoggingBackend (step_name w) (resolve_flow_name w) s3 =
      (Return ?id, ?s_in)"
    using s3(1) by (simp add: span_enter_def logging_get_correlation_id_def current_flow_id_def)
  have wr: "entrypoint_wrapper ext w fn s =
      (let (r, s4) = with_span ext LoggingBackend (step_name w) (resolve_flow_name w) fn s3
       in (r, reset_context s4))"
    by (simp add: entrypoint_wrapper_def pre gb)
  have res: "fst (entrypoint_wrapper ext w fn s) = fst (fn ?s_in)"
    unfolding wr with_span_def enter
    by (cases "fn ?s_in"; cases "fst (fn ?s_in)") (simp_all add: span_exit_def)
  have "get_flow_context ?s_in = Some ?ctx \<and> current_flow_id ?s_in = Some ?id \<and>
      objs ?s_in (next_obj s) = ODict []"
    using s3 by (simp add: get_flow_context_def current_flow_id_def)
  with res show "\<exists>s_in.
           get_flow_context s_in = Some ?ctx \<and>
           current_flow_id s_in = Some ?id \<and>
           objs s_in (next_obj s) = ODict [] \<and>
           fst (entrypoint_wrapper ext w fn s) = fst (fn s_in)"
    by (intro exI [of _ ?s_in]) simp
qed

theorem C10_nested_entrypoint_witness:
  "get_flow_context outer_state = Some \<lparr>correlation_id = ''outer'', metadata_dict = 0\<rparr> \<and>
   config_ok outer_state \<and>
   fst (get_backend outer_state) = Return LoggingBackend \<and>
   fst (step_wrapper demo_ext demo_wrapped fn_probe outer_state) = Return (VStr ''outer'') \<and>
   fst (entrypoint_wrapper demo_ext demo_wrapped fn_probe outer_state) = Return (VStr ''a'') \<and>
   get_flow_context (snd (entrypoint_wrapper demo_ext demo_wrapped fn_probe outer_state)) = None \<and>
   (\<exists>s_in. current_flow_id s_in = Some ''a'' \<and>
      fst (entrypoint_wrapper demo_ext demo_wrapped fn_probe outer_state) = fst (fn_probe s_in))"
proof -
  have a: "get_flow_context outer_state = Some \<lparr>correlation_id = ''outer'', metadata_dict = 0\<rparr>"
    by (simp add: get_flow_context_def outer_state_def)
  have c: "config_ok outer_state"
    by (simp add: config_ok_def outer_state_def)
  have b: "fst (get_backend outer_state) = Return LoggingBackend"
    by (simp add: get_backend_def outer_state_def)
  have r: "fst (step_wrapper demo_ext demo_wrapped fn_probe outer_state) = Return (VStr ''outer'')"
    by (simp add: wrapper_defs demo_defs Let_def)
  have e: "fst (entrypoint_wrapper demo_ext demo_wrapped fn_probe outer_state) = Return (VStr ''a'')"
    by (simp add: wrapper_defs demo_defs Let_def)
  have u: "uuid_stream outer_state (uuid_used outer_state) = ''a''"
    by (simp add: outer_state_def demo_state_def)
  note th = C10_nested_entrypoint [OF a c, of demo_ext demo_wrapped fn_probe]
  note n = th [THEN conjunct1]
  from th [THEN conjunct2, THEN conjunct2, rule_format, OF b, unfolded u]
  obtain s_in where "current_flow_id s_in = Some ''a''"
    "fst (entrypoint_wrapper demo_ext demo_wrapped fn_probe outer_state) = fst (fn_probe s_in)"
    by blast
  then have x: "\<exists>s_in. current_flow_id s_in = Some ''a'' \<and>
      fst (entrypoint_wrapper demo_ext demo_wrapped fn_probe outer_state) = fst (fn_probe s_in)"
    by blast
  show ?thesis
    by (intro conjI a c b r e n x)
qed

end
